theory Spec2Isabelle
  imports Main "HOL-Library.Word"
begin

section \<open>Data model of the streaming core (camera.cpp)\<close>

text \<open>
  The enums \<open>rs_stream\<close>, \<open>rs_format\<close> and \<open>rs_preset\<close> are declared in a header; they
  are used in camera.cpp only as array indices and as values compared for equality, so they
  are numbers here. The fixed-size arrays indexed by \<open>rs_stream\<close> are lists whose length is
  the number of logical streams (\<open>RS_STREAM_COUNT\<close>), which the constructor takes as an
  argument. C++ \<open>int\<close> values are \<open>int\<close>: the code only compares them and takes maxima.
  Three structs have fields \<open>width\<close>, \<open>height\<close>, \<open>format\<close> and \<open>fps\<close>; those of
  \<open>stream_mode\<close> keep their names, those of \<open>stream_request\<close> carry the prefix
  \<open>req_\<close> and those of \<open>subdevice_mode\<close> the prefix \<open>mode_\<close>.
\<close>

type_synonym rs_stream = nat
type_synonym rs_preset = nat
type_synonym rs_format = int
type_synonym byte = "8 word"
type_synonym frame = "byte list"
type_synonym addr = nat

text \<open>The one exception type thrown in camera.cpp is \<open>std::runtime_error\<close> with a message.\<close>

datatype error = runtime_error string

text \<open>\<open>stream_request\<close>: \<open>{enabled, width, height, format, fps}\<close>.\<close>

record stream_request =
  enabled :: bool
  req_width :: int
  req_height :: int
  req_format :: rs_format
  req_fps :: int

text \<open>\<open>stream_mode\<close>: one stream as delivered by a subdevice mode.\<close>

record stream_mode =
  stream :: rs_stream
  width :: int
  height :: int
  format :: rs_format
  fps :: int
  intrinsics_index :: int

text \<open>
  \<open>subdevice_mode\<close>. The unpacker writes the decoded images through one raw destination
  pointer per stream; here it returns the bytes it writes to each destination. It is always
  called with the mode that holds it, so the mode argument is left out.
\<close>

record subdevice_mode =
  subdevice :: int
  mode_width :: int
  mode_height :: int
  mode_format :: rs_format
  mode_fps :: int
  mode_streams :: "stream_mode list"
  unpacker :: "frame \<Rightarrow> byte list list"
  frame_number_decoder :: "(frame \<Rightarrow> int) option"

record image =
  pixels :: "byte list"
  number :: int

text \<open>\<open>rs_camera::stream_buffer\<close>; the mutex has no state of its own in this model.\<close>

record stream_buffer =
  mode :: stream_mode
  front :: image
  middle :: image
  "back" :: image
  updated :: bool

section \<open>stream_buffer\<close>

text \<open>\<open>std::vector::resize\<close>: keeps the prefix, pads with value-initialised bytes.\<close>

definition resize :: "nat \<Rightarrow> byte list \<Rightarrow> byte list" where
  "resize n xs = take n xs @ replicate (n - length xs) 0"

text \<open>
  \<open>stream_buffer::set_mode\<close>. \<open>get_image_size\<close> comes from image.h and is a parameter.
\<close>

definition set_mode ::
  "(int \<Rightarrow> int \<Rightarrow> rs_format \<Rightarrow> nat) \<Rightarrow> stream_mode \<Rightarrow> stream_buffer \<Rightarrow> stream_buffer" where
  "set_mode get_image_size m b =
     (let f = \<lparr>pixels = resize (get_image_size (width m) (height m) (format m)) (pixels (front b)),
                number = 0\<rparr>
      in b\<lparr>mode := m, front := f, middle := f, back := f, updated := False\<rparr>)"

text \<open>\<open>stream_buffer::update_image\<close>: the returned flag and the buffer afterwards.\<close>

definition update_image :: "stream_buffer \<Rightarrow> bool \<times> stream_buffer" where
  "update_image b =
     (if \<not> updated b then (False, b)
      else (True, b\<lparr>front := middle b, middle := front b, updated := False\<rparr>))"

text \<open>
  The producer side, as the capture callback of \<open>subdevice_handle::start_streaming\<close> does it
  to one buffer. A write through \<open>back.pixels.data()\<close> overwrites bytes in place: it cannot
  change the size of the vector.
\<close>

definition write_pixels :: "byte list \<Rightarrow> byte list \<Rightarrow> byte list" where
  "write_pixels old new = take (length old) new @ drop (length new) old"

definition unpack_into_back :: "byte list \<Rightarrow> stream_buffer \<Rightarrow> stream_buffer" where
  "unpack_into_back bytes b = b\<lparr>back := (back b)\<lparr>pixels := write_pixels (pixels (back b)) bytes\<rparr>\<rparr>"

definition stamp_back :: "int \<Rightarrow> stream_buffer \<Rightarrow> stream_buffer" where
  "stamp_back n b = b\<lparr>back := (back b)\<lparr>number := n\<rparr>\<rparr>"

definition swap_back_middle :: "stream_buffer \<Rightarrow> stream_buffer" where
  "swap_back_middle b = b\<lparr>back := middle b, middle := back b, updated := True\<rparr>"

text \<open>The operations a buffer sees after \<open>set_mode\<close>, for stating what they preserve.\<close>

datatype buffer_op =
    Unpack "byte list"
  | Stamp int
  | Swap_back_middle
  | Update_image

fun buffer_step :: "buffer_op \<Rightarrow> stream_buffer \<Rightarrow> stream_buffer" where
  "buffer_step (Unpack bytes) b = unpack_into_back bytes b"
| "buffer_step (Stamp n) b = stamp_back n b"
| "buffer_step Swap_back_middle b = swap_back_middle b"
| "buffer_step Update_image b = snd (update_image b)"

fun buffer_steps :: "buffer_op list \<Rightarrow> stream_buffer \<Rightarrow> stream_buffer" where
  "buffer_steps [] b = b"
| "buffer_steps (x # xs) b = buffer_steps xs (buffer_step x b)"

definition slot_sizes :: "stream_buffer \<Rightarrow> nat list" where
  "slot_sizes b = [length (pixels (front b)), length (pixels (middle b)), length (pixels (back b))]"

section \<open>Subdevice handles, the store of stream buffers, the session\<close>

text \<open>
  Stream buffers are held by \<open>std::shared_ptr\<close>: the session's per-stream slots and the
  capture state of a subdevice handle point to the same objects. They live in a store, a
  list of buffers addressed by position; \<open>std::make_shared\<close> appends one.
\<close>

type_synonym store = "stream_buffer list"

record capture_state =
  cs_mode :: subdevice_mode
  cs_streams :: "addr list"

text \<open>
  \<open>rs_camera::subdevice_handle\<close>. \<open>handle\<close> is the session that
  \<open>device.claim_subdevice(subdevice_index)\<close> returned, named by that index; \<open>streaming\<close>
  records whether \<open>handle.start_streaming\<close> was called last, or \<open>handle.stop_streaming\<close>.
  The calls into the transport are taken to succeed.
\<close>

record subdevice_handle =
  handle :: nat
  state :: "capture_state option"
  streaming :: bool

record 'i calibration_info =
  intrinsics :: "'i list"

record static_camera_info =
  stream_subdevices :: "int list"
  subdevice_modes :: "subdevice_mode list"
  presets :: "stream_request list list"

text \<open>
  \<open>rs_camera\<close>. \<open>store\<close> holds the stream buffers the pointers refer to;
  \<open>calibration_calls\<close> counts the calls of \<open>retrieve_calibration\<close>.
\<close>

record 'i rs_camera =
  camera_info :: static_camera_info
  first_handle :: "nat option"
  is_capturing :: bool
  requests :: "stream_request list"
  calib :: "'i calibration_info"
  subdevices :: "subdevice_handle option list"
  streams :: "addr option list"
  store :: store
  calibration_calls :: nat

text \<open>
  What camera.cpp calls and does not define: \<open>static_camera_info::select_mode\<close> (a null
  pointer is \<open>None\<close>), the virtual \<open>enforce_interstream_constraints\<close> (it works on the
  requests) and \<open>retrieve_calibration\<close>, and \<open>get_image_size\<close> of image.h. The last two
  are taken to return normally. The virtual \<open>set_stream_intent\<close> touches no member that
  camera.cpp reads.
\<close>

record 'i collaborators =
  select_mode :: "static_camera_info \<Rightarrow> stream_request list \<Rightarrow> nat \<Rightarrow> error + subdevice_mode option"
  enforce_interstream_constraints :: "stream_request list \<Rightarrow> error + stream_request list"
  retrieve_calibration :: "'i calibration_info"
  get_image_size :: "int \<Rightarrow> int \<Rightarrow> rs_format \<Rightarrow> nat"

text \<open>The constructor; \<open>n\<close> is \<open>RS_STREAM_COUNT\<close>.\<close>

definition max_subdevice :: "static_camera_info \<Rightarrow> int" where
  "max_subdevice info = fold (\<lambda>m acc. max acc (subdevice m)) (subdevice_modes info) 0"

definition rs_camera_new :: "nat \<Rightarrow> static_camera_info \<Rightarrow> 'i rs_camera" where
  "rs_camera_new n info =
     \<lparr>camera_info = info, first_handle = None, is_capturing = False,
      requests = replicate n \<lparr>enabled = False, req_width = 0, req_height = 0, req_format = 0, req_fps = 0\<rparr>,
      calib = \<lparr>intrinsics = []\<rparr>,
      subdevices = replicate (nat (max_subdevice info + 1)) None,
      streams = replicate n None,
      store = [], calibration_calls = 0\<rparr>"

definition enable_stream ::
  "'i rs_camera \<Rightarrow> rs_stream \<Rightarrow> int \<Rightarrow> int \<Rightarrow> rs_format \<Rightarrow> int \<Rightarrow> (error + unit) \<times> 'i rs_camera" where
  "enable_stream s st w h f r =
     (if first_handle s \<noteq> None
      then (Inl (runtime_error ''streams cannot be reconfigured after having called start_capture()''), s)
      else if stream_subdevices (camera_info s) ! st = - 1
      then (Inl (runtime_error ''unsupported stream''), s)
      else (Inr (), s\<lparr>requests := (requests s)
              [st := \<lparr>enabled = True, req_width = w, req_height = h, req_format = f, req_fps = r\<rparr>]\<rparr>))"

definition enable_stream_preset ::
  "'i rs_camera \<Rightarrow> rs_stream \<Rightarrow> rs_preset \<Rightarrow> (error + unit) \<times> 'i rs_camera" where
  "enable_stream_preset s st p =
     (if first_handle s \<noteq> None
      then (Inl (runtime_error ''streams cannot be reconfigured after having called start_capture()''), s)
      else if \<not> enabled (presets (camera_info s) ! st ! p)
      then (Inl (runtime_error ''unsupported stream''), s)
      else (Inr (), s\<lparr>requests := (requests s)[st := presets (camera_info s) ! st ! p]\<rparr>))"

text \<open>A default-constructed \<open>stream_buffer\<close>, as \<open>std::make_shared\<close> makes it.\<close>

definition new_stream_buffer :: stream_buffer where
  "new_stream_buffer =
     \<lparr>mode = \<lparr>stream = 0, width = 0, height = 0, format = 0, fps = 0, intrinsics_index = 0\<rparr>,
      front = \<lparr>pixels = [], number = 0\<rparr>, middle = \<lparr>pixels = [], number = 0\<rparr>,
      back = \<lparr>pixels = [], number = 0\<rparr>, updated = False\<rparr>"

text \<open>
  The inner loop of \<open>configure_enabled_streams\<close> over \<open>mode->streams\<close>: one new buffer per
  stream mode, pushed onto \<open>stream_list\<close>, and stored in the session's slot when the stream
  was requested.
\<close>

fun make_stream_buffers ::
  "stream_mode list \<Rightarrow> addr list \<Rightarrow> 'i rs_camera \<Rightarrow> addr list \<times> 'i rs_camera" where
  "make_stream_buffers [] stream_list s = (stream_list, s)"
| "make_stream_buffers (sm # sms) stream_list s =
     (let a = length (store s);
          s1 = s\<lparr>store := store s @ [new_stream_buffer]\<rparr>;
          s2 = (if enabled (requests s1 ! stream sm)
                then s1\<lparr>streams := (streams s1)[stream sm := Some a]\<rparr> else s1)
      in make_stream_buffers sms (stream_list @ [a]) s2)"

text \<open>
  \<open>subdevice_handle::set_mode\<close>: the capture state takes the mode and the buffers, and
  each buffer is set to the stream mode at its position.
\<close>

definition set_buffer_modes ::
  "(int \<Rightarrow> int \<Rightarrow> rs_format \<Rightarrow> nat) \<Rightarrow> (addr \<times> stream_mode) list \<Rightarrow> store \<Rightarrow> store" where
  "set_buffer_modes gis ams st = fold (\<lambda>(a, sm) st'. st'[a := set_mode gis sm (st' ! a)]) ams st"

definition subdevice_set_mode ::
  "(int \<Rightarrow> int \<Rightarrow> rs_format \<Rightarrow> nat) \<Rightarrow> subdevice_mode \<Rightarrow> addr list \<Rightarrow>
   subdevice_handle \<Rightarrow> store \<Rightarrow> subdevice_handle \<times> store" where
  "subdevice_set_mode gis m stream_list h st =
     (h\<lparr>state := Some \<lparr>cs_mode = m, cs_streams = stream_list\<rparr>\<rparr>,
      set_buffer_modes gis (zip stream_list (mode_streams m)) st)"

text \<open>The body of the loop over subdevice indices, once \<open>select_mode\<close> returned a mode.\<close>

definition open_subdevice :: "'i collaborators \<Rightarrow> nat \<Rightarrow> subdevice_mode \<Rightarrow> 'i rs_camera \<Rightarrow> 'i rs_camera" where
  "open_subdevice c i m s =
     (let h = \<lparr>handle = i, state = None, streaming = False\<rparr>;
          s0 = s\<lparr>subdevices := (subdevices s)[i := Some h]\<rparr>;
          s1 = (if first_handle s0 = None then s0\<lparr>first_handle := Some (handle h)\<rparr> else s0);
          (stream_list, s2) = make_stream_buffers (mode_streams m) [] s1;
          (h', st') = subdevice_set_mode (get_image_size c) m stream_list h (store s2)
      in s2\<lparr>subdevices := (subdevices s2)[i := Some h'], store := st'\<rparr>)"

fun configure_subdevices ::
  "'i collaborators \<Rightarrow> nat list \<Rightarrow> 'i rs_camera \<Rightarrow> (error + unit) \<times> 'i rs_camera" where
  "configure_subdevices c [] s = (Inr (), s)"
| "configure_subdevices c (i # is) s =
     (case select_mode c (camera_info s) (requests s) i of
        Inl e \<Rightarrow> (Inl e, s)
      | Inr None \<Rightarrow> configure_subdevices c is s
      | Inr (Some m) \<Rightarrow> configure_subdevices c is (open_subdevice c i m s))"

definition reset_all :: "'i rs_camera \<Rightarrow> 'i rs_camera" where
  "reset_all s = s\<lparr>subdevices := map (\<lambda>_. None) (subdevices s), streams := map (\<lambda>_. None) (streams s)\<rparr>"

text \<open>Lines 49 to 82: nothing is opened once a first handle is recorded.\<close>

definition open_requested_subdevices ::
  "'i collaborators \<Rightarrow> 'i rs_camera \<Rightarrow> (error + unit) \<times> 'i rs_camera" where
  "open_requested_subdevices c s =
     (if first_handle s = None
      then (case enforce_interstream_constraints c (requests s) of
              Inl e \<Rightarrow> (Inl e, s)
            | Inr rs \<Rightarrow> configure_subdevices c [0..<length (subdevices s)] (s\<lparr>requests := rs\<rparr>))
      else (Inr (), s))"

text \<open>Lines 85 to 88.\<close>

definition fetch_calibration :: "'i collaborators \<Rightarrow> 'i rs_camera \<Rightarrow> 'i rs_camera" where
  "fetch_calibration c s =
     (if intrinsics (calib s) = [] \<and> first_handle s \<noteq> None
      then s\<lparr>calib := retrieve_calibration c, calibration_calls := Suc (calibration_calls s)\<rparr>
      else s)"

definition configure_enabled_streams ::
  "'i collaborators \<Rightarrow> 'i rs_camera \<Rightarrow> (error + unit) \<times> 'i rs_camera" where
  "configure_enabled_streams c s =
     (case open_requested_subdevices c (reset_all s) of
        (Inl e, s1) \<Rightarrow> (Inl e, s1)
      | (Inr _, s1) \<Rightarrow> (Inr (), fetch_calibration c s1))"

definition set_streaming :: "bool \<Rightarrow> 'i rs_camera \<Rightarrow> 'i rs_camera" where
  "set_streaming v s = s\<lparr>subdevices := map (map_option (\<lambda>h. h\<lparr>streaming := v\<rparr>)) (subdevices s)\<rparr>"

definition start_capture :: "'i collaborators \<Rightarrow> 'i rs_camera \<Rightarrow> (error + unit) \<times> 'i rs_camera" where
  "start_capture c s =
     (case (if first_handle s = None then configure_enabled_streams c s else (Inr (), s)) of
        (Inl e, s1) \<Rightarrow> (Inl e, s1)
      | (Inr _, s1) \<Rightarrow> (Inr (), (set_streaming True s1)\<lparr>is_capturing := True\<rparr>))"

definition stop_capture :: "'i rs_camera \<Rightarrow> 'i rs_camera" where
  "stop_capture s = (set_streaming False s)\<lparr>is_capturing := False\<rparr>"

section \<open>The capture callback and wait_all_streams\<close>

text \<open>
  The callback that \<open>subdevice_handle::start_streaming\<close> registers, run on one raw frame
  with the capture state its closure holds: unpack into every back slot, stamp the frame
  number when the mode has a decoder, then swap back and middle of every buffer and set
  its updated flag.
\<close>

definition callback :: "capture_state \<Rightarrow> frame \<Rightarrow> store \<Rightarrow> store" where
  "callback cs f st =
     (let st1 = fold (\<lambda>(a, bytes) st'. st'[a := unpack_into_back bytes (st' ! a)])
                  (zip (cs_streams cs) (unpacker (cs_mode cs) f)) st;
          st2 = (case frame_number_decoder (cs_mode cs) of
                   None \<Rightarrow> st1
                 | Some decode \<Rightarrow> fold (\<lambda>a st'. st'[a := stamp_back (decode f) (st' ! a)]) (cs_streams cs) st1)
      in fold (\<lambda>a st'. st'[a := swap_back_middle (st' ! a)]) (cs_streams cs) st2)"

text \<open>
  \<open>wait_all_streams\<close> runs beside the capture callbacks. A schedule lists, for each poll
  of \<open>update_image\<close> in turn, the callback runs (capture state and raw frame) that
  completed since the poll before; after the end of the schedule no callback runs any
  more. The busy-wait \<open>while(true) if(stream->update_image()) break;\<close> on a buffer whose
  flag is false then never returns: that is \<open>None\<close>.
\<close>

type_synonym schedule = "(capture_state \<times> frame) list list"

definition deliver :: "(capture_state \<times> frame) list \<Rightarrow> store \<Rightarrow> store" where
  "deliver evs st = fold (\<lambda>(cs, f) st'. callback cs f st') evs st"

fun wait_for_frame :: "schedule \<Rightarrow> addr \<Rightarrow> store \<Rightarrow> (bool list \<times> schedule \<times> store) option" where
  "wait_for_frame [] a st =
     (case update_image (st ! a) of
        (True, b) \<Rightarrow> Some ([True], [], st[a := b])
      | (False, b) \<Rightarrow> None)"
| "wait_for_frame (evs # sch) a st =
     (let st1 = deliver evs st
      in case update_image (st1 ! a) of
           (True, b) \<Rightarrow> Some ([True], sch, st1[a := b])
         | (False, b) \<Rightarrow>
             map_option (\<lambda>(polls, sch', st'). (False # polls, sch', st')) (wait_for_frame sch a st1))"

definition check_for_frame :: "schedule \<Rightarrow> addr \<Rightarrow> store \<Rightarrow> bool list \<times> schedule \<times> store" where
  "check_for_frame sch a st =
     (let st1 = (case sch of [] \<Rightarrow> st | evs # _ \<Rightarrow> deliver evs st);
          (r, b) = update_image (st1 ! a)
      in ([r], tl sch, st1[a := b]))"

text \<open>The first loop of \<open>wait_all_streams\<close>.\<close>

definition max_fps :: "addr option list \<Rightarrow> store \<Rightarrow> int" where
  "max_fps slots st =
     fold (\<lambda>slot maxFps. case slot of None \<Rightarrow> maxFps | Some a \<Rightarrow> max maxFps (fps (mode (st ! a))))
       slots 0"

text \<open>
  The second loop, over the slots with their stream index; the result lists every poll of
  \<open>update_image\<close> in order, as the stream polled and the flag returned.
\<close>

fun poll_streams ::
  "int \<Rightarrow> (rs_stream \<times> addr option) list \<Rightarrow> schedule \<Rightarrow> store \<Rightarrow>
   ((rs_stream \<times> bool) list \<times> schedule \<times> store) option" where
  "poll_streams maxFps [] sch st = Some ([], sch, st)"
| "poll_streams maxFps ((j, None) # slots) sch st = poll_streams maxFps slots sch st"
| "poll_streams maxFps ((j, Some a) # slots) sch st =
     (if fps (mode (st ! a)) = maxFps
      then (case wait_for_frame sch a st of
              None \<Rightarrow> None
            | Some (polls, sch1, st1) \<Rightarrow>
                map_option (\<lambda>(tr, sch', st'). (map (Pair j) polls @ tr, sch', st'))
                  (poll_streams maxFps slots sch1 st1))
      else (case check_for_frame sch a st of
              (polls, sch1, st1) \<Rightarrow>
                map_option (\<lambda>(tr, sch', st'). (map (Pair j) polls @ tr, sch', st'))
                  (poll_streams maxFps slots sch1 st1)))"

definition wait_all_streams ::
  "schedule \<Rightarrow> 'i rs_camera \<Rightarrow> ((rs_stream \<times> bool) list \<times> schedule \<times> 'i rs_camera) option" where
  "wait_all_streams sch s =
     (if \<not> is_capturing s then Some ([], sch, s)
      else map_option (\<lambda>(tr, sch', st'). (tr, sch', s\<lparr>store := st'\<rparr>))
             (poll_streams (max_fps (streams s) (store s))
                (zip [0..<length (streams s)] (streams s)) sch (store s)))"

definition polls_of :: "rs_stream \<Rightarrow> (rs_stream \<times> bool) list \<Rightarrow> bool list" where
  "polls_of j tr = map snd (filter (\<lambda>p. fst p = j) tr)"

text \<open>
  One poll of \<open>update_image\<close> on the buffer at an address, as a caller sees it beside the
  capture callbacks: the callback runs that the schedule lists before this poll are applied
  to the store, then \<open>update_image\<close> runs on the buffer. The result is the flag
  \<open>update_image\<close> returned, the rest of the schedule and the store afterwards.
  \<open>poll_in_turn\<close> polls the buffers at a list of addresses one after the other. The
  polls of \<open>wait_all_streams\<close> are stated against it.
\<close>

definition poll :: "schedule \<Rightarrow> addr \<Rightarrow> store \<Rightarrow> bool \<times> schedule \<times> store" where
  "poll sch a st =
     (let st1 = (case sch of [] \<Rightarrow> st | evs # _ \<Rightarrow> deliver evs st);
          (r, b) = update_image (st1 ! a)
      in (r, tl sch, st1[a := b]))"

fun poll_in_turn :: "addr list \<Rightarrow> schedule \<Rightarrow> store \<Rightarrow> bool list \<times> schedule \<times> store" where
  "poll_in_turn [] sch st = ([], sch, st)"
| "poll_in_turn (a # as) sch st =
     (case poll sch a st of
        (r, sch1, st1) \<Rightarrow>
          (case poll_in_turn as sch1 st1 of (rs, sch', st') \<Rightarrow> (r # rs, sch', st')))"

text \<open>
  A schedule delivers to a buffer when one of its callback runs has the buffer among the
  buffers of its capture state: that run swaps the buffer's back and middle slots and
  sets its updated flag. A frame is pending for a buffer when its flag is set already or
  the schedule delivers to it.
\<close>

definition delivers_to :: "schedule \<Rightarrow> addr \<Rightarrow> bool" where
  "delivers_to sch a = (\<exists>evs \<in> set sch. \<exists>(cs, f) \<in> set evs. a \<in> set (cs_streams cs))"

definition pending :: "schedule \<Rightarrow> store \<Rightarrow> addr \<Rightarrow> bool" where
  "pending sch st a = (updated (st ! a) \<or> delivers_to sch a)"

section \<open>Intrinsics\<close>

text \<open>
  \<open>get_stream_intrinsics\<close>. \<open>calib.intrinsics[k]\<close> with \<open>k\<close> outside the vector has no
  defined behaviour in C++; the model gives that case a result of its own.
\<close>

datatype 'a outcome = Returns 'a | Throws error | Undefined_behaviour

definition get_stream_intrinsics :: "'i rs_camera \<Rightarrow> rs_stream \<Rightarrow> 'i outcome" where
  "get_stream_intrinsics s st =
     (case streams s ! st of
        None \<Rightarrow> Throws (runtime_error ''stream not enabled'')
      | Some a \<Rightarrow>
          (let k = intrinsics_index (mode (store s ! a))
           in if 0 \<le> k \<and> nat k < length (intrinsics (calib s))
              then Returns (intrinsics (calib s) ! nat k)
              else Undefined_behaviour))"

section \<open>Mode selection\<close>

text \<open>
  Modelled from the spec: \<open>static_camera_info::select_mode\<close> is declared in camera.h and
  defined outside camera.cpp. Section 4.1 routes an enabled request to the subdevice that
  the catalog's per-stream mapping names for its stream; these are the streams whose
  enabled requests are routed to subdevice \<open>i\<close>.
\<close>

definition routed :: "static_camera_info \<Rightarrow> stream_request list \<Rightarrow> nat \<Rightarrow> rs_stream list" where
  "routed info reqs i =
     filter (\<lambda>j. enabled (reqs ! j) \<and> stream_subdevices info ! j = int i) [0..<length reqs]"

text \<open>
  Modelled from the spec: the comparison inside \<open>select_mode\<close>, which is not in
  camera.cpp. Section 4.1: a stream mode satisfies a request by matching width, height,
  format and fps.
\<close>

definition satisfies :: "stream_mode \<Rightarrow> stream_request \<Rightarrow> bool" where
  "satisfies sm r =
     (req_width r = width sm \<and> req_height r = height sm \<and> req_format r = format sm \<and> req_fps r = fps sm)"

text \<open>
  Modelled from the spec: the test \<open>select_mode\<close>, which is not in camera.cpp, applies
  to a catalog mode. Section 4.1: its subdevice index matches, and its stream modes
  satisfy every enabled request routed to that subdevice.
\<close>

definition mode_satisfies :: "static_camera_info \<Rightarrow> stream_request list \<Rightarrow> nat \<Rightarrow> subdevice_mode \<Rightarrow> bool" where
  "mode_satisfies info reqs i m =
     (subdevice m = int i \<and>
      (\<forall>j \<in> set (routed info reqs i). \<exists>sm \<in> set (mode_streams m). stream sm = j \<and> satisfies sm (reqs ! j)))"

text \<open>
  Modelled from the spec: \<open>static_camera_info::select_mode\<close>, which is not in camera.cpp.
  Section 4.1: a subdevice with no enabled request routed to it is skipped (the null
  pointer); otherwise the first satisfying mode in catalog order is returned; when there
  is none, that is a configuration error. The spec gives no message for it; the one here
  stands for it.
\<close>

definition select_mode_spec ::
  "static_camera_info \<Rightarrow> stream_request list \<Rightarrow> nat \<Rightarrow> error + subdevice_mode option" where
  "select_mode_spec info reqs i =
     (if routed info reqs i = [] then Inr None
      else (case find (mode_satisfies info reqs i) (subdevice_modes info) of
              None \<Rightarrow> Inl (runtime_error ''no mode satisfies the requested streams'')
            | Some m \<Rightarrow> Inr (Some m)))"

section \<open>Invariants of the session\<close>

text \<open>An open subdevice comes with a recorded first handle.\<close>

definition handle_recorded :: "'i rs_camera \<Rightarrow> bool" where
  "handle_recorded s = ((\<exists>h \<in> set (subdevices s). h \<noteq> None) \<longrightarrow> first_handle s \<noteq> None)"

text \<open>
  The calibration is empty until \<open>retrieve_calibration\<close> was called, and it is called
  only with a first handle recorded.
\<close>

definition calibration_inv :: "'i collaborators \<Rightarrow> 'i rs_camera \<Rightarrow> bool" where
  "calibration_inv c s =
     (calibration_calls s \<le> 1 \<and>
      (calibration_calls s = 0 \<longrightarrow> intrinsics (calib s) = []) \<and>
      (calibration_calls s = 1 \<longrightarrow> first_handle s \<noteq> None \<and> calib s = retrieve_calibration c))"

text \<open>
  A stream mode is negotiated for a stream when the stream's request is enabled and the
  mode that \<open>select_mode\<close> returns for some subdevice contains it as a mode of that
  stream. \<open>buffers_hold\<close> says that every buffer in a stream slot is in the store and has
  a mode with the given property.
\<close>

definition negotiated :: "'i collaborators \<Rightarrow> 'i rs_camera \<Rightarrow> rs_stream \<Rightarrow> stream_mode \<Rightarrow> bool" where
  "negotiated c s st sm =
     (enabled (requests s ! st) \<and>
      (\<exists>i \<in> set [0..<length (subdevices s)].
         case select_mode c (camera_info s) (requests s) i of
           Inr (Some m) \<Rightarrow> sm \<in> set (mode_streams m) \<and> stream sm = st
         | _ \<Rightarrow> False))"

definition buffers_hold :: "(rs_stream \<Rightarrow> stream_mode \<Rightarrow> bool) \<Rightarrow> 'i rs_camera \<Rightarrow> bool" where
  "buffers_hold P s =
     (\<forall>st < length (streams s). \<forall>a. streams s ! st = Some a \<longrightarrow>
        a < length (store s) \<and> P st (mode (store s ! a)))"

text \<open>
  Every buffer in a stream slot is in the store, and its mode is a mode of that slot's
  stream.
\<close>

definition own_buffers :: "'i rs_camera \<Rightarrow> bool" where
  "own_buffers s = buffers_hold (\<lambda>j sm. stream sm = j) s"

section \<open>Sequences of operations\<close>

text \<open>The indices of the subdevices that hold an open handle.\<close>

definition open_subdevices :: "'i rs_camera \<Rightarrow> nat list" where
  "open_subdevices s = filter (\<lambda>i. subdevices s ! i \<noteq> None) [0..<length (subdevices s)]"

text \<open>
  The calls a caller can make on a session, and a frame reaching a capture callback. A
  call that throws leaves the session as the throw left it, and the caller goes on; a
  \<open>wait_all_streams\<close> that never returns ends the sequence.
\<close>

datatype op =
    Enable_stream rs_stream int int rs_format int
  | Enable_stream_preset rs_stream rs_preset
  | Configure_enabled_streams
  | Start_capture
  | Stop_capture
  | Wait_all_streams schedule
  | Frame_arrives capture_state frame

fun run_op :: "'i collaborators \<Rightarrow> op \<Rightarrow> 'i rs_camera \<Rightarrow> 'i rs_camera option" where
  "run_op c (Enable_stream st w h f r) s = Some (snd (enable_stream s st w h f r))"
| "run_op c (Enable_stream_preset st p) s = Some (snd (enable_stream_preset s st p))"
| "run_op c Configure_enabled_streams s = Some (snd (configure_enabled_streams c s))"
| "run_op c Start_capture s = Some (snd (start_capture c s))"
| "run_op c Stop_capture s = Some (stop_capture s)"
| "run_op c (Wait_all_streams sch) s = map_option (\<lambda>(tr, sch', s'). s') (wait_all_streams sch s)"
| "run_op c (Frame_arrives cs f) s = Some (s\<lparr>store := callback cs f (store s)\<rparr>)"

fun run_ops :: "'i collaborators \<Rightarrow> op list \<Rightarrow> 'i rs_camera \<Rightarrow> 'i rs_camera option" where
  "run_ops c [] s = Some s"
| "run_ops c (x # xs) s = (case run_op c x s of None \<Rightarrow> None | Some s' \<Rightarrow> run_ops c xs s')"

section \<open>The example scenario\<close>

text \<open>
  Three logical streams: depth (0), color (1) and infrared (2), which this camera does not
  have. Subdevice 0 serves color only at 640x480@30, subdevice 1 serves depth only at
  640x480@30. The collaborators select modes as section 4.1 says, enforce no constraint,
  return a calibration with two intrinsics entries (numbers here) and size every image at
  four bytes.
\<close>

definition color_mode :: subdevice_mode where
  "color_mode =
     \<lparr>subdevice = 0, mode_width = 640, mode_height = 480, mode_format = 1, mode_fps = 30,
      mode_streams = [\<lparr>stream = 1, width = 640, height = 480, format = 1, fps = 30, intrinsics_index = 0\<rparr>],
      unpacker = (\<lambda>f. [f]), frame_number_decoder = None\<rparr>"

definition depth_mode :: subdevice_mode where
  "depth_mode =
     \<lparr>subdevice = 1, mode_width = 640, mode_height = 480, mode_format = 2, mode_fps = 30,
      mode_streams = [\<lparr>stream = 0, width = 640, height = 480, format = 2, fps = 30, intrinsics_index = 1\<rparr>],
      unpacker = (\<lambda>f. [f]), frame_number_decoder = None\<rparr>"

definition example_info :: static_camera_info where
  "example_info =
     \<lparr>stream_subdevices = [1, 0, - 1], subdevice_modes = [color_mode, depth_mode],
      presets = [[\<lparr>enabled = True, req_width = 640, req_height = 480, req_format = 2, req_fps = 30\<rparr>],
                 [\<lparr>enabled = True, req_width = 640, req_height = 480, req_format = 1, req_fps = 30\<rparr>],
                 [\<lparr>enabled = False, req_width = 0, req_height = 0, req_format = 0, req_fps = 0\<rparr>]]\<rparr>"

definition example_camera :: "nat collaborators" where
  "example_camera =
     \<lparr>select_mode = select_mode_spec, enforce_interstream_constraints = Inr,
      retrieve_calibration = \<lparr>intrinsics = [10, 20]\<rparr>, get_image_size = (\<lambda>w h f. 4)\<rparr>"

definition fresh_session :: "nat rs_camera" where
  "fresh_session = rs_camera_new 3 example_info"

text \<open>Color and depth requested at 640x480@30.\<close>

definition both_requested :: "nat rs_camera" where
  "both_requested =
     snd (enable_stream (snd (enable_stream fresh_session 1 640 480 1 30)) 0 640 480 2 30)"

text \<open>Color requested at 640x480@30, depth at a resolution the catalog does not have.\<close>

definition unsupported_depth :: "nat rs_camera" where
  "unsupported_depth =
     snd (enable_stream (snd (enable_stream fresh_session 1 640 480 1 30)) 0 320 240 2 30)"

text \<open>Only depth requested, at the unsupported resolution.\<close>

definition only_unsupported_depth :: "nat rs_camera" where
  "only_unsupported_depth = snd (enable_stream fresh_session 0 320 240 2 30)"

text \<open>
  A second catalog, where subdevice 1 serves depth at 60 frames per second: color and
  depth requested at their rates and capture started; and a schedule in which one depth
  frame arrives before the first poll and nothing after.
\<close>

definition depth_mode_60 :: subdevice_mode where
  "depth_mode_60 =
     \<lparr>subdevice = 1, mode_width = 640, mode_height = 480, mode_format = 2, mode_fps = 60,
      mode_streams = [\<lparr>stream = 0, width = 640, height = 480, format = 2, fps = 60, intrinsics_index = 1\<rparr>],
      unpacker = (\<lambda>f. [f]), frame_number_decoder = None\<rparr>"

definition two_rate_session :: "nat rs_camera" where
  "two_rate_session =
     snd (start_capture example_camera
       (snd (enable_stream
          (snd (enable_stream
             (rs_camera_new 3 (example_info\<lparr>subdevice_modes := [color_mode, depth_mode_60]\<rparr>))
             1 640 480 1 30))
          0 640 480 2 60)))"

definition depth_frame_only :: schedule where
  "depth_frame_only = [[(\<lparr>cs_mode = depth_mode_60, cs_streams = [1]\<rparr>, [7, 7, 7, 7])]]"

text \<open>
  A third catalog, which routes depth to subdevice 1 as before but lists the color mode of
  subdevice 0 only, so that the constructor makes one subdevice slot; and depth requested
  at 640x480@30 on a new session with that catalog.
\<close>

definition color_only_info :: static_camera_info where
  "color_only_info = example_info\<lparr>subdevice_modes := [color_mode]\<rparr>"

definition depth_on_missing_subdevice :: "nat rs_camera" where
  "depth_on_missing_subdevice = snd (enable_stream (rs_camera_new 3 color_only_info) 0 640 480 2 30)"

text \<open>Unfolding the example and the operations it runs.\<close>

lemmas example_defs =
  fresh_session_def both_requested_def unsupported_depth_def only_unsupported_depth_def
  example_camera_def example_info_def color_mode_def depth_mode_def
  rs_camera_new_def max_subdevice_def enable_stream_def enable_stream_preset_def
  configure_enabled_streams_def open_requested_subdevices_def fetch_calibration_def
  reset_all_def open_subdevice_def subdevice_set_mode_def
  set_buffer_modes_def set_mode_def new_stream_buffer_def resize_def
  select_mode_spec_def routed_def mode_satisfies_def satisfies_def
  start_capture_def stop_capture_def set_streaming_def open_subdevices_def
  Let_def upt_rec numeral_2_eq_2 numeral_3_eq_3

lemmas wait_defs =
  wait_all_streams_def max_fps_def check_for_frame_def deliver_def callback_def
  update_image_def unpack_into_back_def stamp_back_def swap_back_middle_def write_pixels_def
  polls_of_def

section \<open>Properties of stream_buffer\<close>

lemma length_resize: "length (resize n xs) = n"
  by (simp add: resize_def)

lemma length_write_pixels: "length (write_pixels old new) = length old"
  by (simp add: write_pixels_def)

lemma slot_sizes_step:
  "slot_sizes b = [n, n, n] \<Longrightarrow> slot_sizes (buffer_step x b) = [n, n, n]"
  by (cases x)
     (auto simp: slot_sizes_def unpack_into_back_def stamp_back_def swap_back_middle_def
                 update_image_def length_write_pixels)

lemma slot_sizes_steps:
  "slot_sizes b = [n, n, n] \<Longrightarrow> slot_sizes (buffer_steps xs b) = [n, n, n]"
  by (induction xs arbitrary: b) (simp_all add: slot_sizes_step)

text \<open>
  C4. \<open>update_image\<close> on a buffer whose updated flag is false returns false and leaves the
  buffer as it is; on a buffer whose flag is true it returns true, exchanges front and
  middle, clears the flag and leaves back (and the mode) as they are.
\<close>

theorem update_image_contract:
  "(\<not> updated b \<longrightarrow> update_image b = (False, b)) \<and>
   (updated b \<longrightarrow>
      fst (update_image b) = True \<and>
      front (snd (update_image b)) = middle b \<and>
      middle (snd (update_image b)) = front b \<and>
      back (snd (update_image b)) = back b \<and>
      mode (snd (update_image b)) = mode b \<and>
      updated (snd (update_image b)) = False)"
  by (simp add: update_image_def)

theorem update_image_contract_witness:
  "updated (swap_back_middle new_stream_buffer) \<and>
   fst (update_image (swap_back_middle new_stream_buffer)) = True \<and>
   front (snd (update_image (swap_back_middle new_stream_buffer))) = middle (swap_back_middle new_stream_buffer) \<and>
   updated (snd (update_image (swap_back_middle new_stream_buffer))) = False \<and>
   \<not> updated new_stream_buffer \<and>
   update_image new_stream_buffer = (False, new_stream_buffer)"
proof -
  have t: "updated (swap_back_middle new_stream_buffer)"
    by (simp add: swap_back_middle_def)
  have f: "\<not> updated new_stream_buffer"
    by (simp add: new_stream_buffer_def)
  from t f update_image_contract [of "swap_back_middle new_stream_buffer"]
    update_image_contract [of new_stream_buffer]
  show ?thesis by simp
qed

text \<open>
  C7. \<open>set_mode\<close> leaves all three slots with the pixel size \<open>get_image_size\<close> gives for
  the mode, frame number 0 and the updated flag cleared; and whatever producer writes,
  frame-number stamps, back/middle swaps and \<open>update_image\<close> calls follow, the three slots
  keep that size.
\<close>

theorem set_mode_slots:
  "slot_sizes (set_mode gis m b) = replicate 3 (gis (width m) (height m) (format m)) \<and>
   number (front (set_mode gis m b)) = 0 \<and>
   number (middle (set_mode gis m b)) = 0 \<and>
   number (back (set_mode gis m b)) = 0 \<and>
   updated (set_mode gis m b) = False \<and>
   mode (set_mode gis m b) = m \<and>
   slot_sizes (buffer_steps ops (set_mode gis m b)) = replicate 3 (gis (width m) (height m) (format m))"
proof -
  let ?n = "gis (width m) (height m) (format m)"
  have sz: "slot_sizes (set_mode gis m b) = [?n, ?n, ?n]"
    by (simp add: slot_sizes_def set_mode_def Let_def length_resize)
  have "slot_sizes (buffer_steps ops (set_mode gis m b)) = [?n, ?n, ?n]"
    using sz by (rule slot_sizes_steps)
  moreover have "replicate 3 ?n = [?n, ?n, ?n]"
    by (simp add: numeral_3_eq_3)
  ultimately show ?thesis
    using sz by (simp add: set_mode_def Let_def)
qed

section \<open>Properties of the session\<close>

lemma make_stream_buffers_fields:
  "make_stream_buffers sms l s = (l', s') \<Longrightarrow>
     first_handle s' = first_handle s \<and> subdevices s' = subdevices s \<and> requests s' = requests s \<and>
     calib s' = calib s \<and> calibration_calls s' = calibration_calls s \<and>
     camera_info s' = camera_info s \<and> is_capturing s' = is_capturing s \<and>
     length (streams s') = length (streams s)"
proof (induction sms arbitrary: l s)
  case Nil
  then show ?case by simp
next
  case (Cons sm sms)
  then show ?case by (fastforce simp: Let_def split: if_splits)
qed

lemma open_subdevice_fields:
  "first_handle (open_subdevice c i m s) = (if first_handle s = None then Some i else first_handle s) \<and>
   requests (open_subdevice c i m s) = requests s \<and>
   calib (open_subdevice c i m s) = calib s \<and>
   calibration_calls (open_subdevice c i m s) = calibration_calls s \<and>
   camera_info (open_subdevice c i m s) = camera_info s \<and>
   is_capturing (open_subdevice c i m s) = is_capturing s \<and>
   length (streams (open_subdevice c i m s)) = length (streams s) \<and>
   (\<exists>h. subdevices (open_subdevice c i m s) = (subdevices s)[i := Some h])"
proof -
  let ?h = "\<lparr>handle = i, state = None, streaming = False\<rparr>"
  let ?s0 = "s\<lparr>subdevices := (subdevices s)[i := Some ?h]\<rparr>"
  let ?s1 = "if first_handle ?s0 = None then ?s0\<lparr>first_handle := Some (handle ?h)\<rparr> else ?s0"
  obtain l s2 where m: "make_stream_buffers (mode_streams m) [] ?s1 = (l, s2)"
    by (cases "make_stream_buffers (mode_streams m) [] ?s1")
  note f = make_stream_buffers_fields [OF m]
  show ?thesis
    using f m by (auto simp: open_subdevice_def subdevice_set_mode_def Let_def split: prod.splits)
qed

lemma configure_subdevices_fields:
  "requests (snd (configure_subdevices c js s)) = requests s \<and>
   calib (snd (configure_subdevices c js s)) = calib s \<and>
   calibration_calls (snd (configure_subdevices c js s)) = calibration_calls s \<and>
   camera_info (snd (configure_subdevices c js s)) = camera_info s \<and>
   is_capturing (snd (configure_subdevices c js s)) = is_capturing s \<and>
   length (streams (snd (configure_subdevices c js s))) = length (streams s) \<and>
   length (subdevices (snd (configure_subdevices c js s))) = length (subdevices s)"
proof (induction js arbitrary: s)
  case Nil
  show ?case by simp
next
  case (Cons i js)
  show ?case
  proof (cases "select_mode c (camera_info s) (requests s) i")
    case (Inl e)
    then show ?thesis by simp
  next
    case (Inr r)
    show ?thesis
    proof (cases r)
      case None
      with Inr Cons.IH [of s] show ?thesis by simp
    next
      case (Some m)
      obtain h where h: "subdevices (open_subdevice c i m s) = (subdevices s)[i := Some h]"
        using open_subdevice_fields [of c i m s] by blast
      from Inr Some Cons.IH [of "open_subdevice c i m s"] open_subdevice_fields [of c i m s] h
      show ?thesis by simp
    qed
  qed
qed

lemma open_subdevice_first_handle: "first_handle (open_subdevice c i m s) \<noteq> None"
  using open_subdevice_fields [of c i m s] by (simp split: if_splits)

lemma configure_subdevices_first_handle:
  "first_handle s \<noteq> None \<Longrightarrow> first_handle (snd (configure_subdevices c js s)) \<noteq> None"
proof (induction js arbitrary: s)
  case Nil
  then show ?case by simp
next
  case (Cons i js)
  show ?case
  proof (cases "select_mode c (camera_info s) (requests s) i")
    case (Inl e)
    with Cons.prems show ?thesis by simp
  next
    case (Inr r)
    show ?thesis
    proof (cases r)
      case None
      with Inr Cons show ?thesis by simp
    next
      case (Some m)
      with Inr Cons.IH [OF open_subdevice_first_handle [of c i m s]] show ?thesis by simp
    qed
  qed
qed

lemma configure_subdevices_handle_recorded:
  "handle_recorded s \<Longrightarrow> handle_recorded (snd (configure_subdevices c js s))"
proof (induction js arbitrary: s)
  case Nil
  then show ?case by simp
next
  case (Cons i js)
  have o: "handle_recorded (open_subdevice c i m s)" for m
    by (simp add: handle_recorded_def open_subdevice_first_handle)
  show ?case
  proof (cases "select_mode c (camera_info s) (requests s) i")
    case (Inl e)
    with Cons.prems show ?thesis by simp
  next
    case (Inr r)
    show ?thesis
    proof (cases r)
      case None
      with Inr Cons show ?thesis by simp
    next
      case (Some m)
      with Inr Cons.IH [OF o [of m]] show ?thesis by simp
    qed
  qed
qed

lemma reset_all_handle_recorded: "handle_recorded (reset_all s)"
  by (auto simp: handle_recorded_def reset_all_def)

lemma open_requested_handle_recorded:
  "handle_recorded s \<Longrightarrow> handle_recorded (snd (open_requested_subdevices c s))"
proof (cases "first_handle s = None")
  case False
  assume "handle_recorded s"
  with False show ?thesis by (auto simp: open_requested_subdevices_def)
next
  case True
  assume h: "handle_recorded s"
  show ?thesis
  proof (cases "enforce_interstream_constraints c (requests s)")
    case (Inl e)
    with True h show ?thesis by (simp add: open_requested_subdevices_def)
  next
    case (Inr rs)
    from h have "handle_recorded (s\<lparr>requests := rs\<rparr>)"
      by (simp add: handle_recorded_def)
    from configure_subdevices_handle_recorded [OF this] True Inr
    show ?thesis by (simp add: open_requested_subdevices_def)
  qed
qed

lemma fetch_calibration_handle_recorded:
  "handle_recorded s \<Longrightarrow> handle_recorded (fetch_calibration c s)"
  by (simp add: handle_recorded_def fetch_calibration_def)

lemma configure_handle_recorded: "handle_recorded (snd (configure_enabled_streams c s))"
proof -
  have "handle_recorded (snd (open_requested_subdevices c (reset_all s)))"
    by (rule open_requested_handle_recorded [OF reset_all_handle_recorded])
  then show ?thesis
    by (cases "open_requested_subdevices c (reset_all s)")
       (auto simp: configure_enabled_streams_def fetch_calibration_handle_recorded split: sum.splits)
qed

lemma start_capture_handle_recorded: "handle_recorded (snd (start_capture c s))"
proof (cases "first_handle s = None")
  case True
  have k: "handle_recorded t \<Longrightarrow> handle_recorded ((set_streaming True t)\<lparr>is_capturing := True\<rparr>)"
    for t :: "'a rs_camera"
    by (auto simp: handle_recorded_def set_streaming_def)
  from True configure_handle_recorded [of c s] show ?thesis
    by (cases "configure_enabled_streams c s")
       (auto simp: start_capture_def k split: sum.splits)
next
  case False
  then show ?thesis
    by (auto simp: start_capture_def handle_recorded_def set_streaming_def)
qed

lemma open_requested_fields:
  "calib (snd (open_requested_subdevices c s)) = calib s \<and>
   calibration_calls (snd (open_requested_subdevices c s)) = calibration_calls s \<and>
   (first_handle s \<noteq> None \<longrightarrow> first_handle (snd (open_requested_subdevices c s)) \<noteq> None)"
proof (cases "first_handle s = None")
  case False
  then show ?thesis by (auto simp: open_requested_subdevices_def)
next
  case True
  show ?thesis
  proof (cases "enforce_interstream_constraints c (requests s)")
    case (Inl e)
    with True show ?thesis by (simp add: open_requested_subdevices_def)
  next
    case (Inr rs)
    with True configure_subdevices_fields [of c "[0..<length (subdevices s)]" "s\<lparr>requests := rs\<rparr>"]
    show ?thesis by (simp add: open_requested_subdevices_def)
  qed
qed

lemma configure_calibration_inv:
  assumes ne: "intrinsics (retrieve_calibration c) \<noteq> []" and inv: "calibration_inv c s"
  shows "calibration_inv c (snd (configure_enabled_streams c s))"
proof -
  obtain r s1 where o: "open_requested_subdevices c (reset_all s) = (r, s1)"
    by (cases "open_requested_subdevices c (reset_all s)")
  from open_requested_fields [of c "reset_all s"] o
  have f: "calib s1 = calib s" "calibration_calls s1 = calibration_calls s"
    "first_handle s \<noteq> None \<longrightarrow> first_handle s1 \<noteq> None"
    by (simp_all add: reset_all_def)
  from inv f ne have i1: "calibration_inv c s1"
    by (auto simp: calibration_inv_def)
  from i1 ne have "calibration_inv c (fetch_calibration c s1)"
    by (auto simp: calibration_inv_def fetch_calibration_def)
  with i1 o show ?thesis
    by (cases r) (simp_all add: configure_enabled_streams_def)
qed

lemma configure_fetches_when_open:
  assumes ne: "intrinsics (retrieve_calibration c) \<noteq> []" and inv: "calibration_inv c s"
    and ok: "fst (configure_enabled_streams c s) = Inr ()"
    and fh: "first_handle (snd (configure_enabled_streams c s)) \<noteq> None"
  shows "calibration_calls (snd (configure_enabled_streams c s)) = 1"
proof -
  obtain r s1 where o: "open_requested_subdevices c (reset_all s) = (r, s1)"
    by (cases "open_requested_subdevices c (reset_all s)")
  from ok o have r: "r = Inr ()"
    by (cases r) (simp_all add: configure_enabled_streams_def)
  from o r have e: "configure_enabled_streams c s = (Inr (), fetch_calibration c s1)"
    by (simp add: configure_enabled_streams_def)
  from fh e have fh1: "first_handle s1 \<noteq> None"
    by (auto simp: fetch_calibration_def split: if_splits)
  from configure_calibration_inv [OF ne inv] e have i: "calibration_inv c (fetch_calibration c s1)"
    by simp
  from ne i fh1 have "intrinsics (calib (fetch_calibration c s1)) \<noteq> []"
    by (auto simp: fetch_calibration_def)
  with i have "calibration_calls (fetch_calibration c s1) = 1"
    by (auto simp: calibration_inv_def)
  with e show ?thesis by simp
qed

lemma start_capture_calibration_inv:
  assumes ne: "intrinsics (retrieve_calibration c) \<noteq> []" and inv: "calibration_inv c s"
  shows "calibration_inv c (snd (start_capture c s))"
proof -
  have k: "calibration_inv c t \<Longrightarrow> calibration_inv c ((set_streaming True t)\<lparr>is_capturing := True\<rparr>)"
    for t :: "'a rs_camera"
    by (simp add: calibration_inv_def set_streaming_def)
  show ?thesis
  proof (cases "first_handle s = None")
    case True
    with configure_calibration_inv [OF ne inv] show ?thesis
      by (cases "configure_enabled_streams c s") (auto simp: start_capture_def k split: sum.splits)
  next
    case False
    with inv show ?thesis by (auto simp: start_capture_def k)
  qed
qed

lemma wait_all_streams_fields:
  "wait_all_streams sch s = Some (tr, sch', s') \<Longrightarrow> \<exists>st'. s' = s\<lparr>store := st'\<rparr>"
  by (cases s) (auto simp: wait_all_streams_def split: if_splits)

lemma run_op_calibration_inv:
  assumes ne: "intrinsics (retrieve_calibration c) \<noteq> []" and inv: "calibration_inv c s"
    and r: "run_op c x s = Some s'"
  shows "calibration_inv c s'"
proof (cases x)
  case (Enable_stream st w h f r)
  with inv r show ?thesis by (auto simp: enable_stream_def calibration_inv_def split: if_splits)
next
  case (Enable_stream_preset st p)
  with inv r show ?thesis by (auto simp: enable_stream_preset_def calibration_inv_def split: if_splits)
next
  case Configure_enabled_streams
  with configure_calibration_inv [OF ne inv] r show ?thesis by auto
next
  case Start_capture
  with start_capture_calibration_inv [OF ne inv] r show ?thesis by auto
next
  case Stop_capture
  with inv r show ?thesis by (auto simp: stop_capture_def set_streaming_def calibration_inv_def)
next
  case (Wait_all_streams sch)
  with r obtain tr sch' where "wait_all_streams sch s = Some (tr, sch', s')" by auto
  from wait_all_streams_fields [OF this] inv show ?thesis by (auto simp: calibration_inv_def)
next
  case (Frame_arrives cs f)
  with inv r show ?thesis by (auto simp: calibration_inv_def)
qed

lemma run_ops_calibration_inv:
  "intrinsics (retrieve_calibration c) \<noteq> [] \<Longrightarrow> calibration_inv c s \<Longrightarrow>
   run_ops c xs s = Some s' \<Longrightarrow> calibration_inv c s'"
proof (induction xs arbitrary: s)
  case Nil
  then show ?case by simp
next
  case (Cons x xs)
  then show ?case
    by (auto split: option.splits dest: run_op_calibration_inv)
qed

lemma new_calibration_inv: "calibration_inv c (rs_camera_new n info)"
  by (simp add: calibration_inv_def rs_camera_new_def)

lemma open_subdevices_nonempty:
  assumes "open_subdevices s \<noteq> []"
  shows "\<exists>h \<in> set (subdevices s). h \<noteq> None"
proof -
  from assms obtain i where i: "i < length (subdevices s)" "subdevices s ! i \<noteq> None"
    by (auto simp: open_subdevices_def filter_empty_conv)
  from i(1) have "subdevices s ! i \<in> set (subdevices s)"
    by (rule nth_mem)
  with i(2) show ?thesis by blast
qed

lemma configure_no_refetch:
  assumes "intrinsics (calib s) \<noteq> []"
  shows "calibration_calls (snd (configure_enabled_streams c s)) = calibration_calls s"
proof -
  obtain r s1 where o: "open_requested_subdevices c (reset_all s) = (r, s1)"
    by (cases "open_requested_subdevices c (reset_all s)")
  from open_requested_fields [of c "reset_all s"] o
  have f: "calib s1 = calib s" "calibration_calls s1 = calibration_calls s"
    by (simp_all add: reset_all_def)
  with assms have "calibration_calls (fetch_calibration c s1) = calibration_calls s"
    by (simp add: fetch_calibration_def)
  with f o show ?thesis
    by (cases r) (simp_all add: configure_enabled_streams_def)
qed

lemma start_capture_no_refetch:
  assumes "intrinsics (calib s) \<noteq> []"
  shows "calibration_calls (snd (start_capture c s)) = calibration_calls s"
proof (cases "first_handle s = None")
  case True
  with configure_no_refetch [OF assms, of c] show ?thesis
    by (cases "configure_enabled_streams c s")
       (auto simp: start_capture_def set_streaming_def split: sum.splits)
next
  case False
  then show ?thesis by (auto simp: start_capture_def set_streaming_def)
qed

lemma configured_example:
  "fst (configure_enabled_streams example_camera both_requested) = Inr () \<and>
   open_subdevices (snd (configure_enabled_streams example_camera both_requested)) = [0, 1] \<and>
   streams (snd (configure_enabled_streams example_camera both_requested)) = [Some 1, Some 0, None] \<and>
   first_handle (snd (configure_enabled_streams example_camera both_requested)) = Some 0 \<and>
   calibration_calls (snd (configure_enabled_streams example_camera both_requested)) = 1 \<and>
   calib (snd (configure_enabled_streams example_camera both_requested)) = \<lparr>intrinsics = [10, 20]\<rparr> \<and>
   map (intrinsics_index \<circ> mode) (store (snd (configure_enabled_streams example_camera both_requested))) = [0, 1]"
  by (simp add: example_defs)

lemma configure_again:
  assumes "first_handle s \<noteq> None"
  shows "configure_enabled_streams c s = (Inr (), fetch_calibration c (reset_all s))"
  using assms by (auto simp: configure_enabled_streams_def open_requested_subdevices_def reset_all_def)

lemma configure_again_closes_everything:
  assumes "first_handle s \<noteq> None"
  shows "fst (configure_enabled_streams c s) = Inr () \<and>
         open_subdevices (snd (configure_enabled_streams c s)) = [] \<and>
         streams (snd (configure_enabled_streams c s)) = replicate (length (streams s)) None"
  by (simp add: configure_again [OF assms] fetch_calibration_def reset_all_def open_subdevices_def
        filter_empty_conv map_replicate_const)

lemma run_op_requests_locked:
  assumes fh: "first_handle s \<noteq> None" and r: "run_op c x s = Some s'"
  shows "first_handle s' \<noteq> None \<and> requests s' = requests s"
proof (cases x)
  case (Enable_stream st w h f r)
  with fh r show ?thesis by (auto simp: enable_stream_def)
next
  case (Enable_stream_preset st p)
  with fh r show ?thesis by (auto simp: enable_stream_preset_def)
next
  case Configure_enabled_streams
  with fh r configure_again [OF fh, of c] show ?thesis
    by (auto simp: fetch_calibration_def reset_all_def)
next
  case Start_capture
  with fh r show ?thesis by (auto simp: start_capture_def set_streaming_def)
next
  case Stop_capture
  with fh r show ?thesis by (auto simp: stop_capture_def set_streaming_def)
next
  case (Wait_all_streams sch)
  with r obtain tr sch' where "wait_all_streams sch s = Some (tr, sch', s')" by auto
  from wait_all_streams_fields [OF this] fh show ?thesis by auto
next
  case (Frame_arrives cs f)
  with fh r show ?thesis by auto
qed

lemma run_ops_requests_locked:
  "first_handle s \<noteq> None \<Longrightarrow> run_ops c xs s = Some s' \<Longrightarrow>
   first_handle s' \<noteq> None \<and> requests s' = requests s"
proof (induction xs arbitrary: s)
  case Nil
  then show ?case by simp
next
  case (Cons x xs)
  from Cons.prems(2) obtain s1 where s1: "run_op c x s = Some s1" and rest: "run_ops c xs s1 = Some s'"
    by (auto split: option.splits)
  from run_op_requests_locked [OF Cons.prems(1) s1] Cons.IH [OF _ rest]
  show ?case by simp
qed

text \<open>
  C3. Once a first handle is recorded, \<open>enable_stream\<close> and \<open>enable_stream_preset\<close>
  throw \<open>std::runtime_error\<close> (the spec's ConfigurationError) and leave the session, its
  requests included, as it was; so does a call for a stream routed to no subdevice, or for
  a preset that is not enabled in the catalog. Every throwing call leaves the session
  unchanged. A first handle is recorded whenever \<open>configure_enabled_streams\<close> or
  \<open>start_capture\<close> leaves a subdevice open; and once it is recorded, it stays recorded
  and the requests stay as they are through every further sequence of operations.
\<close>

theorem enable_stream_after_open_fails:
  "(first_handle s \<noteq> None \<longrightarrow>
      enable_stream s st w h f r =
        (Inl (runtime_error ''streams cannot be reconfigured after having called start_capture()''), s) \<and>
      enable_stream_preset s st p =
        (Inl (runtime_error ''streams cannot be reconfigured after having called start_capture()''), s)) \<and>
   (first_handle s = None \<and> stream_subdevices (camera_info s) ! st = - 1 \<longrightarrow>
      enable_stream s st w h f r = (Inl (runtime_error ''unsupported stream''), s)) \<and>
   (first_handle s = None \<and> \<not> enabled (presets (camera_info s) ! st ! p) \<longrightarrow>
      enable_stream_preset s st p = (Inl (runtime_error ''unsupported stream''), s)) \<and>
   (\<forall>e. fst (enable_stream s st w h f r) = Inl e \<longrightarrow> snd (enable_stream s st w h f r) = s) \<and>
   (\<forall>e. fst (enable_stream_preset s st p) = Inl e \<longrightarrow> snd (enable_stream_preset s st p) = s) \<and>
   (open_subdevices (snd (configure_enabled_streams c s)) \<noteq> [] \<longrightarrow>
      first_handle (snd (configure_enabled_streams c s)) \<noteq> None) \<and>
   (open_subdevices (snd (start_capture c s)) \<noteq> [] \<longrightarrow>
      first_handle (snd (start_capture c s)) \<noteq> None) \<and>
   (first_handle s \<noteq> None \<and> run_ops c ops s = Some s' \<longrightarrow>
      first_handle s' \<noteq> None \<and> requests s' = requests s)"
proof -
  have l: "first_handle s \<noteq> None \<and> run_ops c ops s = Some s' \<longrightarrow>
      first_handle s' \<noteq> None \<and> requests s' = requests s"
    using run_ops_requests_locked [of s c ops s'] by blast
  have a: "open_subdevices (snd (configure_enabled_streams c s)) \<noteq> [] \<longrightarrow>
      first_handle (snd (configure_enabled_streams c s)) \<noteq> None"
    using configure_handle_recorded [of c s] open_subdevices_nonempty
    unfolding handle_recorded_def by blast
  have b: "open_subdevices (snd (start_capture c s)) \<noteq> [] \<longrightarrow>
      first_handle (snd (start_capture c s)) \<noteq> None"
    using start_capture_handle_recorded [of c s] open_subdevices_nonempty
    unfolding handle_recorded_def by blast
  have c: "first_handle s \<noteq> None \<longrightarrow>
      enable_stream s st w h f r =
        (Inl (runtime_error ''streams cannot be reconfigured after having called start_capture()''), s) \<and>
      enable_stream_preset s st p =
        (Inl (runtime_error ''streams cannot be reconfigured after having called start_capture()''), s)"
    by (auto simp: enable_stream_def enable_stream_preset_def)
  have d: "first_handle s = None \<and> stream_subdevices (camera_info s) ! st = - 1 \<longrightarrow>
      enable_stream s st w h f r = (Inl (runtime_error ''unsupported stream''), s)"
    by (simp add: enable_stream_def)
  have e: "first_handle s = None \<and> \<not> enabled (presets (camera_info s) ! st ! p) \<longrightarrow>
      enable_stream_preset s st p = (Inl (runtime_error ''unsupported stream''), s)"
    by (simp add: enable_stream_preset_def)
  have f: "\<forall>e. fst (enable_stream s st w h f r) = Inl e \<longrightarrow> snd (enable_stream s st w h f r) = s"
    by (simp add: enable_stream_def)
  have g: "\<forall>e. fst (enable_stream_preset s st p) = Inl e \<longrightarrow> snd (enable_stream_preset s st p) = s"
    by (simp add: enable_stream_preset_def)
  from a b c d e f g l show ?thesis by blast
qed

theorem enable_stream_after_open_fails_witness:
  "first_handle (snd (configure_enabled_streams example_camera both_requested)) \<noteq> None \<and>
   open_subdevices (snd (configure_enabled_streams example_camera both_requested)) \<noteq> [] \<and>
   enable_stream (snd (configure_enabled_streams example_camera both_requested)) 0 320 240 2 30 =
     (Inl (runtime_error ''streams cannot be reconfigured after having called start_capture()''),
      snd (configure_enabled_streams example_camera both_requested)) \<and>
   enable_stream_preset (snd (configure_enabled_streams example_camera both_requested)) 0 0 =
     (Inl (runtime_error ''streams cannot be reconfigured after having called start_capture()''),
      snd (configure_enabled_streams example_camera both_requested)) \<and>
   first_handle fresh_session = None \<and>
   stream_subdevices (camera_info fresh_session) ! 2 = - 1 \<and>
   enable_stream fresh_session 2 640 480 1 30 = (Inl (runtime_error ''unsupported stream''), fresh_session) \<and>
   \<not> enabled (presets (camera_info fresh_session) ! 2 ! 0) \<and>
   enable_stream_preset fresh_session 2 0 = (Inl (runtime_error ''unsupported stream''), fresh_session) \<and>
   run_ops example_camera [Enable_stream 0 320 240 2 30, Start_capture]
     (snd (configure_enabled_streams example_camera both_requested)) =
     Some (snd (start_capture example_camera (snd (enable_stream
       (snd (configure_enabled_streams example_camera both_requested)) 0 320 240 2 30)))) \<and>
   requests (snd (start_capture example_camera (snd (enable_stream
       (snd (configure_enabled_streams example_camera both_requested)) 0 320 240 2 30)))) =
     requests (snd (configure_enabled_streams example_camera both_requested))"
proof -
  have r: "run_ops example_camera [Enable_stream 0 320 240 2 30, Start_capture]
     (snd (configure_enabled_streams example_camera both_requested)) =
     Some (snd (start_capture example_camera (snd (enable_stream
       (snd (configure_enabled_streams example_camera both_requested)) 0 320 240 2 30))))"
    by simp
  have a: "first_handle fresh_session = None"
    "stream_subdevices (camera_info fresh_session) ! 2 = - 1"
    "\<not> enabled (presets (camera_info fresh_session) ! 2 ! 0)"
    by (simp_all add: fresh_session_def rs_camera_new_def example_info_def)
  from configured_example
  have b: "first_handle (snd (configure_enabled_streams example_camera both_requested)) \<noteq> None"
    "open_subdevices (snd (configure_enabled_streams example_camera both_requested)) \<noteq> []"
    by simp_all
  note t = enable_stream_after_open_fails
      [of "snd (configure_enabled_streams example_camera both_requested)" 0 320 240 2 30 0 example_camera
          "[Enable_stream 0 320 240 2 30, Start_capture]"
          "snd (start_capture example_camera (snd (enable_stream
             (snd (configure_enabled_streams example_camera both_requested)) 0 320 240 2 30)))"]
  from t b(1) have c:
    "enable_stream (snd (configure_enabled_streams example_camera both_requested)) 0 320 240 2 30 =
     (Inl (runtime_error ''streams cannot be reconfigured after having called start_capture()''),
      snd (configure_enabled_streams example_camera both_requested))"
    "enable_stream_preset (snd (configure_enabled_streams example_camera both_requested)) 0 0 =
     (Inl (runtime_error ''streams cannot be reconfigured after having called start_capture()''),
      snd (configure_enabled_streams example_camera both_requested))"
    by blast+
  from t b(1) r have d:
    "requests (snd (start_capture example_camera (snd (enable_stream
       (snd (configure_enabled_streams example_camera both_requested)) 0 320 240 2 30)))) =
     requests (snd (configure_enabled_streams example_camera both_requested))"
    by blast
  from a enable_stream_after_open_fails [of fresh_session 2 640 480 1 30 0 example_camera]
  have e: "enable_stream fresh_session 2 640 480 1 30 = (Inl (runtime_error ''unsupported stream''), fresh_session)"
    "enable_stream_preset fresh_session 2 0 = (Inl (runtime_error ''unsupported stream''), fresh_session)"
    by blast+
  from a b c d e r show ?thesis by blast
qed

text \<open>
  C1 on the example scenario. The first \<open>configure_enabled_streams\<close> opens subdevices 0
  and 1 and assigns buffers to color and depth; the second closes both subdevices and
  clears every stream slot, since the resets at the top of the function are outside the
  \<open>if (!first_handle)\<close> that guards the reopening (\<open>configure_again_closes_everything\<close>
  is the same fact for every session with a first handle recorded).
\<close>

theorem configure_twice_closes_subdevices:
  "fst (configure_enabled_streams example_camera both_requested) = Inr () \<and>
   open_subdevices (snd (configure_enabled_streams example_camera both_requested)) = [0, 1] \<and>
   streams (snd (configure_enabled_streams example_camera both_requested)) = [Some 1, Some 0, None] \<and>
   fst (configure_enabled_streams example_camera
          (snd (configure_enabled_streams example_camera both_requested))) = Inr () \<and>
   open_subdevices (snd (configure_enabled_streams example_camera
          (snd (configure_enabled_streams example_camera both_requested)))) = [] \<and>
   streams (snd (configure_enabled_streams example_camera
          (snd (configure_enabled_streams example_camera both_requested)))) = [None, None, None]"
  by (simp add: example_defs)

section \<open>Mode negotiation in configure_enabled_streams\<close>

lemma configure_subdevices_append:
  "configure_subdevices c (xs @ ys) s =
     (case configure_subdevices c xs s of
        (Inl e, s') \<Rightarrow> (Inl e, s')
      | (Inr u, s') \<Rightarrow> configure_subdevices c ys s')"
proof (induction xs arbitrary: s)
  case Nil
  show ?case by simp
next
  case (Cons i xs)
  show ?case
  proof (cases "select_mode c (camera_info s) (requests s) i")
    case (Inl e)
    then show ?thesis by simp
  next
    case (Inr r)
    with Cons show ?thesis by (cases r) simp_all
  qed
qed

lemma configure_subdevices_ok:
  assumes "\<forall>j \<in> set js. \<forall>e. select_mode c (camera_info s) (requests s) j \<noteq> Inl e"
  shows "fst (configure_subdevices c js s) = Inr () \<and>
         (\<forall>k < length (subdevices s).
            (subdevices (snd (configure_subdevices c js s)) ! k \<noteq> None) =
            (subdevices s ! k \<noteq> None \<or>
             (k \<in> set js \<and> select_mode c (camera_info s) (requests s) k \<noteq> Inr None)))"
  using assms
proof (induction js arbitrary: s)
  case Nil
  show ?case by simp
next
  case (Cons i js)
  from Cons.prems obtain r where r: "select_mode c (camera_info s) (requests s) i = Inr r"
    by (cases "select_mode c (camera_info s) (requests s) i") auto
  show ?case
  proof (cases r)
    case None
    from Cons.prems have "\<forall>j \<in> set js. \<forall>e. select_mode c (camera_info s) (requests s) j \<noteq> Inl e"
      by simp
    from Cons.IH [OF this] r None show ?thesis by auto
  next
    case (Some m)
    let ?t = "open_subdevice c i m s"
    note f = open_subdevice_fields [of c i m s]
    from f obtain h where h: "subdevices ?t = (subdevices s)[i := Some h]" by blast
    from f have eq: "camera_info ?t = camera_info s" "requests ?t = requests s" by simp_all
    from Cons.prems eq
    have "\<forall>j \<in> set js. \<forall>e. select_mode c (camera_info ?t) (requests ?t) j \<noteq> Inl e"
      by simp
    from Cons.IH [OF this]
    have ih: "fst (configure_subdevices c js ?t) = Inr ()"
      "\<forall>k < length (subdevices s).
            (subdevices (snd (configure_subdevices c js ?t)) ! k \<noteq> None) =
            (((subdevices s)[i := Some h]) ! k \<noteq> None \<or>
             (k \<in> set js \<and> select_mode c (camera_info s) (requests s) k \<noteq> Inr None))"
      by (simp_all add: eq h)
    have "(subdevices (snd (configure_subdevices c js ?t)) ! k \<noteq> None) =
            (subdevices s ! k \<noteq> None \<or>
             (k \<in> set (i # js) \<and> select_mode c (camera_info s) (requests s) k \<noteq> Inr None))"
      if k: "k < length (subdevices s)" for k
    proof (cases "k = i")
      case True
      with ih(2) k r Some show ?thesis by simp
    next
      case False
      with ih(2) k show ?thesis by simp
    qed
    with ih(1) r Some show ?thesis by simp
  qed
qed

lemma filter_upt_below:
  assumes "i \<le> n" and "\<forall>k < n. P k = (k < i \<and> Q k)"
  shows "filter P [0..<n] = filter Q [0..<i]"
proof -
  from assms(1) have "[0..<n] = [0..<i] @ [i..<n]"
    by (metis le_add_diff_inverse upt_add_eq_append zero_le)
  moreover from assms have "filter P [0..<i] = filter Q [0..<i]"
    by (intro filter_cong) auto
  moreover from assms have "filter P [i..<n] = []"
    by (auto simp: filter_empty_conv)
  ultimately show ?thesis by simp
qed

lemma open_subdevices_after_loop:
  assumes none: "\<forall>h \<in> set (subdevices t). h = None" and i: "i \<le> length (subdevices t)"
    and ok: "\<forall>j < i. \<forall>e. select_mode c (camera_info t) (requests t) j \<noteq> Inl e"
  shows "fst (configure_subdevices c [0..<i] t) = Inr () \<and>
         open_subdevices (snd (configure_subdevices c [0..<i] t)) =
           filter (\<lambda>j. select_mode c (camera_info t) (requests t) j \<noteq> Inr None) [0..<i]"
proof -
  let ?t' = "snd (configure_subdevices c [0..<i] t)"
  from ok have "\<forall>j \<in> set [0..<i]. \<forall>e. select_mode c (camera_info t) (requests t) j \<noteq> Inl e"
    by simp
  note r = configure_subdevices_ok [OF this]
  have len: "length (subdevices ?t') = length (subdevices t)"
    using configure_subdevices_fields [of c "[0..<i]" t] by simp
  have "(subdevices ?t' ! k \<noteq> None) =
          (k < i \<and> select_mode c (camera_info t) (requests t) k \<noteq> Inr None)"
    if k: "k < length (subdevices t)" for k
  proof -
    from k have "subdevices t ! k \<in> set (subdevices t)" by (rule nth_mem)
    with none have "subdevices t ! k = None" by blast
    with r k show ?thesis by simp
  qed
  then have "filter (\<lambda>k. subdevices ?t' ! k \<noteq> None) [0..<length (subdevices t)] =
      filter (\<lambda>j. select_mode c (camera_info t) (requests t) j \<noteq> Inr None) [0..<i]"
    using i by (intro filter_upt_below) simp_all
  with r len show ?thesis by (simp add: open_subdevices_def)
qed

lemma open_subdevices_fetch_calibration:
  "open_subdevices (fetch_calibration c s) = open_subdevices s"
  by (simp add: open_subdevices_def fetch_calibration_def)

lemma negotiation_succeeds:
  assumes fh: "first_handle s = None"
    and enf: "enforce_interstream_constraints c (requests s) = Inr rs"
    and ok: "\<forall>j < length (subdevices s). \<forall>e. select_mode c (camera_info s) rs j \<noteq> Inl e"
  shows "fst (configure_enabled_streams c s) = Inr () \<and>
         open_subdevices (snd (configure_enabled_streams c s)) =
           filter (\<lambda>j. select_mode c (camera_info s) rs j \<noteq> Inr None) [0..<length (subdevices s)]"
proof -
  let ?t = "(reset_all s)\<lparr>requests := rs\<rparr>"
  have none: "\<forall>h \<in> set (subdevices ?t). h = None"
    by (auto simp: reset_all_def)
  have eq: "camera_info ?t = camera_info s" "requests ?t = rs" "length (subdevices ?t) = length (subdevices s)"
    by (simp_all add: reset_all_def)
  from ok eq have "\<forall>j < length (subdevices ?t). \<forall>e. select_mode c (camera_info ?t) (requests ?t) j \<noteq> Inl e"
    by simp
  from open_subdevices_after_loop [OF none le_refl this] eq
  have l: "fst (configure_subdevices c [0..<length (subdevices s)] ?t) = Inr ()"
    "open_subdevices (snd (configure_subdevices c [0..<length (subdevices s)] ?t)) =
       filter (\<lambda>j. select_mode c (camera_info s) rs j \<noteq> Inr None) [0..<length (subdevices s)]"
    by simp_all
  from fh enf have o: "open_requested_subdevices c (reset_all s) =
      configure_subdevices c [0..<length (subdevices s)] ?t"
    by (simp add: open_requested_subdevices_def reset_all_def)
  from l o show ?thesis
    by (cases "configure_subdevices c [0..<length (subdevices s)] ?t")
       (auto simp: configure_enabled_streams_def open_subdevices_fetch_calibration split: sum.splits)
qed

lemma negotiation_fails:
  assumes fh: "first_handle s = None"
    and enf: "enforce_interstream_constraints c (requests s) = Inr rs"
    and i: "i < length (subdevices s)"
    and bad: "select_mode c (camera_info s) rs i = Inl e"
    and ok: "\<forall>j < i. \<forall>e. select_mode c (camera_info s) rs j \<noteq> Inl e"
  shows "fst (configure_enabled_streams c s) = Inl e \<and>
         open_subdevices (snd (configure_enabled_streams c s)) =
           filter (\<lambda>j. select_mode c (camera_info s) rs j \<noteq> Inr None) [0..<i] \<and>
         calibration_calls (snd (configure_enabled_streams c s)) = calibration_calls s"
proof -
  let ?n = "length (subdevices s)"
  let ?t = "(reset_all s)\<lparr>requests := rs\<rparr>"
  let ?t' = "snd (configure_subdevices c [0..<i] ?t)"
  have none: "\<forall>h \<in> set (subdevices ?t). h = None"
    by (auto simp: reset_all_def)
  have eq: "camera_info ?t = camera_info s" "requests ?t = rs" "length (subdevices ?t) = ?n"
    "calibration_calls ?t = calibration_calls s"
    by (simp_all add: reset_all_def)
  from i eq have le: "i \<le> length (subdevices ?t)" by simp
  from ok eq have "\<forall>j < i. \<forall>e. select_mode c (camera_info ?t) (requests ?t) j \<noteq> Inl e"
    by simp
  from open_subdevices_after_loop [OF none le this] eq
  have l: "fst (configure_subdevices c [0..<i] ?t) = Inr ()"
    "open_subdevices ?t' = filter (\<lambda>j. select_mode c (camera_info s) rs j \<noteq> Inr None) [0..<i]"
    by simp_all
  from configure_subdevices_fields [of c "[0..<i]" ?t] eq
  have eq': "camera_info ?t' = camera_info s" "requests ?t' = rs"
    "calibration_calls ?t' = calibration_calls s"
    by simp_all
  from i have "[0..<?n] = [0..<i] @ i # [Suc i..<?n]"
    by (metis less_imp_add_positive upt_add_eq_append upt_conv_Cons zero_le add.commute
        le_add2 less_imp_le_nat le_add_diff_inverse)
  then have "configure_subdevices c [0..<?n] ?t =
      (case configure_subdevices c [0..<i] ?t of
        (Inl e, s') \<Rightarrow> (Inl e, s')
      | (Inr u, s') \<Rightarrow> configure_subdevices c (i # [Suc i..<?n]) s')"
    by (simp add: configure_subdevices_append)
  with l(1) bad eq' have "configure_subdevices c [0..<?n] ?t = (Inl e, ?t')"
    by (cases "configure_subdevices c [0..<i] ?t") (auto split: sum.splits)
  moreover from fh enf have "open_requested_subdevices c (reset_all s) =
      configure_subdevices c [0..<?n] ?t"
    by (simp add: open_requested_subdevices_def reset_all_def)
  ultimately have "configure_enabled_streams c s = (Inl e, ?t')"
    by (simp add: configure_enabled_streams_def)
  with l(2) eq' show ?thesis by simp
qed

lemma select_mode_spec_Inl:
  "(select_mode_spec info rs j = Inl e) =
     (routed info rs j \<noteq> [] \<and> (\<forall>m \<in> set (subdevice_modes info). \<not> mode_satisfies info rs j m) \<and>
      e = runtime_error ''no mode satisfies the requested streams'')"
proof (cases "find (mode_satisfies info rs j) (subdevice_modes info)")
  case None
  then have "\<forall>m \<in> set (subdevice_modes info). \<not> mode_satisfies info rs j m"
    by (simp add: find_None_iff)
  with None show ?thesis by (auto simp: select_mode_spec_def)
next
  case (Some m)
  then have "m \<in> set (subdevice_modes info)" "mode_satisfies info rs j m"
    by (auto simp: find_Some_iff)
  with Some show ?thesis by (auto simp: select_mode_spec_def)
qed

lemma select_mode_spec_None:
  "(select_mode_spec info rs j = Inr None) = (routed info rs j = [])"
  by (auto simp: select_mode_spec_def split: option.splits)

section \<open>wait_all_streams\<close>

lemma map_mode_update:
  assumes "mode b' = mode (st ! a)"
  shows "map mode (st[a := b']) = map mode st"
proof (cases "a < length st")
  case True
  then have "map mode (st[a := b']) = (map mode st)[a := map mode st ! a]"
    using assms by (simp add: map_update)
  then show ?thesis by simp
next
  case False
  then have "st[a := b'] = st" by (simp add: list_update_beyond)
  then show ?thesis by simp
qed

lemma fold_keeps_modes:
  assumes "\<And>x st. map mode (F x st) = map mode st"
  shows "map mode (fold F xs st) = map mode st"
  by (induction xs arbitrary: st) (simp_all add: assms)

lemma callback_keeps_modes: "map mode (callback cs f st) = map mode st"
proof -
  have u: "map mode (fold (\<lambda>(a, bytes) st'. st'[a := unpack_into_back bytes (st' ! a)]) xs st0) = map mode st0"
    for xs st0
    by (rule fold_keeps_modes) (auto simp: unpack_into_back_def intro: map_mode_update)
  have n: "map mode (fold (\<lambda>a st'. st'[a := stamp_back k (st' ! a)]) xs st0) = map mode st0"
    for k xs st0
    by (rule fold_keeps_modes) (auto simp: stamp_back_def intro: map_mode_update)
  have w: "map mode (fold (\<lambda>a st'. st'[a := swap_back_middle (st' ! a)]) xs st0) = map mode st0"
    for xs st0
    by (rule fold_keeps_modes) (auto simp: swap_back_middle_def intro: map_mode_update)
  show ?thesis
    by (cases "frame_number_decoder (cs_mode cs)") (simp_all add: callback_def Let_def u n w)
qed

lemma deliver_keeps_modes: "map mode (deliver evs st) = map mode st"
  unfolding deliver_def
  by (rule fold_keeps_modes) (auto simp: callback_keeps_modes)

lemma update_image_keeps_mode: "mode (snd (update_image b)) = mode b"
  by (simp add: update_image_def)

lemma poll_keeps_modes:
  "update_image (st ! a) = (r, b) \<Longrightarrow> map mode (st[a := b]) = map mode st"
  using update_image_keeps_mode [of "st ! a"] by (simp add: map_mode_update)

lemma wait_for_frame_result:
  "wait_for_frame sch a st = Some (polls, sch', st') \<Longrightarrow>
     map mode st' = map mode st \<and> (\<exists>k. polls = replicate k False @ [True])"
proof (induction sch arbitrary: st polls)
  case Nil
  obtain r b where u: "update_image (st ! a) = (r, b)" by (cases "update_image (st ! a)")
  with Nil poll_keeps_modes [OF u] have "map mode st' = map mode st" "polls = [True]"
    by (auto split: if_splits bool.splits)
  then show ?case by (auto intro: exI [of _ 0])
next
  case (Cons evs sch)
  let ?st1 = "deliver evs st"
  obtain r b where u: "update_image (?st1 ! a) = (r, b)" by (cases "update_image (?st1 ! a)")
  show ?case
  proof (cases r)
    case True
    with Cons.prems u poll_keeps_modes [OF u] deliver_keeps_modes [of evs st]
    have "map mode st' = map mode st" "polls = [True]"
      by (auto simp: Let_def)
    then show ?thesis by (auto intro: exI [of _ 0])
  next
    case False
    with Cons.prems u obtain polls0 where
      w: "wait_for_frame sch a ?st1 = Some (polls0, sch', st')" and p: "polls = False # polls0"
      by (auto simp: Let_def)
    from Cons.IH [OF w] obtain k where "map mode st' = map mode ?st1" "polls0 = replicate k False @ [True]"
      by blast
    with p deliver_keeps_modes [of evs st]
    have "map mode st' = map mode st" "polls = replicate (Suc k) False @ [True]"
      by simp_all
    then show ?thesis by blast
  qed
qed

lemma check_for_frame_result:
  "check_for_frame sch a st = (polls, sch', st') \<Longrightarrow>
     map mode st' = map mode st \<and> (\<exists>r. polls = [r])"
proof -
  assume c: "check_for_frame sch a st = (polls, sch', st')"
  let ?st1 = "case sch of [] \<Rightarrow> st | evs # _ \<Rightarrow> deliver evs st"
  have m: "map mode ?st1 = map mode st"
    by (cases sch) (simp_all add: deliver_keeps_modes)
  obtain r b where u: "update_image (?st1 ! a) = (r, b)" by (cases "update_image (?st1 ! a)")
  from c u have "st' = ?st1[a := b]" "polls = [r]"
    by (simp_all add: check_for_frame_def Let_def)
  with poll_keeps_modes [OF u] m show ?thesis by simp
qed

lemma polls_of_append: "polls_of j (xs @ ys) = polls_of j xs @ polls_of j ys"
  by (simp add: polls_of_def)

lemma polls_of_tagged: "polls_of j (map (Pair i) polls) = (if i = j then polls else [])"
  by (induction polls) (auto simp: polls_of_def)

lemma poll_streams_trace:
  assumes "poll_streams mx slots sch st = Some (tr, sch', st')"
    and "distinct (map fst slots)"
    and "\<forall>(j, slot) \<in> set slots. \<forall>a. slot = Some a \<longrightarrow> a < length st"
  shows "map mode st' = map mode st \<and>
         (\<forall>j. j \<notin> fst ` set slots \<longrightarrow> polls_of j tr = []) \<and>
         (\<forall>(j, slot) \<in> set slots.
            case slot of
              None \<Rightarrow> polls_of j tr = []
            | Some a \<Rightarrow>
                if fps (mode (st ! a)) = mx then \<exists>k. polls_of j tr = replicate k False @ [True]
                else \<exists>r. polls_of j tr = [r])"
  using assms
proof (induction slots arbitrary: sch st tr)
  case Nil
  then show ?case by (simp add: polls_of_def)
next
  case (Cons p slots)
  obtain i slot where p: "p = (i, slot)" by (cases p)
  from Cons.prems(2) p have d: "distinct (map fst slots)" and ni: "i \<notin> fst ` set slots"
    by simp_all
  show ?case
  proof (cases slot)
    case None
    with Cons.prems(1) p have ps: "poll_streams mx slots sch st = Some (tr, sch', st')"
      by simp
    from Cons.prems(3) have v: "\<forall>(j, slot) \<in> set slots. \<forall>a. slot = Some a \<longrightarrow> a < length st"
      by simp
    note ih = Cons.IH [OF ps d v]
    from ih ni have "polls_of i tr = []" by blast
    with ih p None show ?thesis by auto
  next
    case (Some a)
    from Cons.prems(3) p Some have a: "a < length st" by simp
    have step: "\<exists>polls sch1 st1 tr1.
        poll_streams mx slots sch1 st1 = Some (tr1, sch', st') \<and> tr = map (Pair i) polls @ tr1 \<and>
        map mode st1 = map mode st \<and>
        (if fps (mode (st ! a)) = mx then \<exists>k. polls = replicate k False @ [True] else \<exists>r. polls = [r])"
    proof (cases "fps (mode (st ! a)) = mx")
      case True
      with Cons.prems(1) p Some obtain polls sch1 st1 tr1 where
        w: "wait_for_frame sch a st = Some (polls, sch1, st1)" and
        r: "poll_streams mx slots sch1 st1 = Some (tr1, sch', st')" "tr = map (Pair i) polls @ tr1"
        by (auto split: option.splits)
      from wait_for_frame_result [OF w]
      have "map mode st1 = map mode st" "\<exists>k. polls = replicate k False @ [True]"
        by blast+
      with r True show ?thesis by (intro exI [of _ polls] exI [of _ sch1] exI [of _ st1] exI [of _ tr1]) simp
    next
      case False
      obtain polls sch1 st1 where c: "check_for_frame sch a st = (polls, sch1, st1)"
        by (cases "check_for_frame sch a st")
      with Cons.prems(1) p Some False obtain tr1 where
        r: "poll_streams mx slots sch1 st1 = Some (tr1, sch', st')" "tr = map (Pair i) polls @ tr1"
        by auto
      from check_for_frame_result [OF c]
      have "map mode st1 = map mode st" "\<exists>r. polls = [r]"
        by blast+
      with r False show ?thesis by (intro exI [of _ polls] exI [of _ sch1] exI [of _ st1] exI [of _ tr1]) simp
    qed
    then obtain polls sch1 st1 tr1 where
      r: "poll_streams mx slots sch1 st1 = Some (tr1, sch', st')" and
      tr: "tr = map (Pair i) polls @ tr1" and
      m: "map mode st1 = map mode st" and
      sh: "if fps (mode (st ! a)) = mx then \<exists>k. polls = replicate k False @ [True] else \<exists>r. polls = [r]"
      by blast
    from m have len: "length st1 = length st"
      by (metis length_map)
    from Cons.prems(3) len have v: "\<forall>(j, slot) \<in> set slots. \<forall>a. slot = Some a \<longrightarrow> a < length st1"
      by simp
    note ih = Cons.IH [OF r d v]
    have same: "mode (st1 ! b) = mode (st ! b)" if "b < length st" for b
      using m that len by (metis nth_map)
    from ih ni have i0: "polls_of i tr1 = []" by blast
    have here: "polls_of i tr = polls"
      by (simp add: tr polls_of_append polls_of_tagged i0)
    have others: "polls_of j tr = polls_of j tr1" if "j \<noteq> i" for j
      using that by (simp add: tr polls_of_append polls_of_tagged)
    have rest: "case slot' of
              None \<Rightarrow> polls_of j tr = []
            | Some b \<Rightarrow>
                if fps (mode (st ! b)) = mx then \<exists>k. polls_of j tr = replicate k False @ [True]
                else \<exists>r. polls_of j tr = [r]"
      if js: "(j, slot') \<in> set slots" for j slot'
    proof -
      from js ni have ne: "j \<noteq> i" by force
      from ih js have c: "case slot' of
              None \<Rightarrow> polls_of j tr1 = []
            | Some b \<Rightarrow>
                if fps (mode (st1 ! b)) = mx then \<exists>k. polls_of j tr1 = replicate k False @ [True]
                else \<exists>r. polls_of j tr1 = [r]"
        by blast
      show ?thesis
      proof (cases slot')
        case None
        with c others [OF ne] show ?thesis by simp
      next
        case (Some b)
        with Cons.prems(3) js have "b < length st" by auto
        from same [OF this] c Some others [OF ne] show ?thesis by simp
      qed
    qed
    have out: "polls_of j tr = []" if "j \<notin> fst ` set (p # slots)" for j
    proof -
      from that p have "j \<noteq> i" "j \<notin> fst ` set slots" by auto
      with ih others show ?thesis by simp
    qed
    from ih m have keep: "map mode st' = map mode st" by simp
    show ?thesis
    proof (intro conjI allI impI ballI)
      show "map mode st' = map mode st" by (fact keep)
    next
      fix j
      assume "j \<notin> fst ` set (p # slots)"
      then show "polls_of j tr = []" by (rule out)
    next
      fix x
      assume x: "x \<in> set (p # slots)"
      show "case x of (j, slot) \<Rightarrow>
              (case slot of
                 None \<Rightarrow> polls_of j tr = []
               | Some a \<Rightarrow>
                   if fps (mode (st ! a)) = mx then \<exists>k. polls_of j tr = replicate k False @ [True]
                   else \<exists>r. polls_of j tr = [r])"
      proof (cases "x = p")
        case True
        with p Some here sh show ?thesis by simp
      next
        case False
        obtain j slot' where xs: "x = (j, slot')" by (cases x)
        with x False have "(j, slot') \<in> set slots" by simp
        from rest [OF this] xs show ?thesis by simp
      qed
    qed
  qed
qed

lemma two_rate_session_eval:
  "is_capturing two_rate_session \<and>
   streams two_rate_session = [Some 1, Some 0, None] \<and>
   map (fps \<circ> mode) (store two_rate_session) = [30, 60] \<and>
   map updated (store two_rate_session) = [False, False]"
  by (simp add: two_rate_session_def depth_mode_60_def example_defs)

lemma two_rate_wait:
  "\<exists>s'. wait_all_streams depth_frame_only two_rate_session = Some ([(0, True), (1, False)], [], s') \<and>
     front (store s' ! 0) = front (store two_rate_session ! 0)"
  by (simp add: two_rate_session_def depth_frame_only_def depth_mode_60_def example_defs wait_defs)

lemma two_rate_max_fps:
  "max_fps (streams two_rate_session) (store two_rate_session) = 60 \<and>
   streams two_rate_session ! 1 = Some 0 \<and>
   fps (mode (store two_rate_session ! 0)) = 30"
  by (simp add: two_rate_session_def depth_mode_60_def example_defs wait_defs)

lemma finite_these_set: "finite (Option.these (set xs))"
  by (simp add: Option.these_def)

lemma Max_insert_max:
  assumes "finite X"
  shows "Max (insert (max m x) X) = Max (insert m (insert x X))"
proof (cases "X = {}")
  case True
  then show ?thesis by (simp add: max.commute)
next
  case False
  with assms show ?thesis by (simp add: max.assoc)
qed

lemma fold_max_fps:
  "fold (\<lambda>slot m. case slot of None \<Rightarrow> m | Some a \<Rightarrow> max m (g a)) slots m0 =
     Max (insert (m0 :: int) (g ` Option.these (set slots)))"
proof (induction slots arbitrary: m0)
  case Nil
  show ?case by simp
next
  case (Cons slot slots)
  have fin: "finite (g ` Option.these (set slots))"
    by (rule finite_imageI [OF finite_these_set])
  show ?case
  proof (cases slot)
    case None
    with Cons show ?thesis by (simp add: Option.these_insert_None)
  next
    case (Some a)
    with Cons Max_insert_max [OF fin, of m0 "g a"] show ?thesis
      by (simp add: Option.these_insert_Some insert_commute)
  qed
qed

lemma max_fps_Max:
  "max_fps slots st = Max (insert 0 ((\<lambda>a. fps (mode (st ! a))) ` Option.these (set slots)))"
  unfolding max_fps_def by (rule fold_max_fps)

lemma wait_for_frame_returns:
  "(wait_for_frame sch a st \<noteq> None) =
     (\<exists>k \<le> length sch. updated (fold deliver (take (Suc k) sch) st ! a))"
proof (induction sch arbitrary: st)
  case Nil
  show ?case by (simp add: update_image_def)
next
  case (Cons evs sch)
  let ?st1 = "deliver evs st"
  have l: "(wait_for_frame (evs # sch) a st \<noteq> None) =
           (updated (?st1 ! a) \<or> wait_for_frame sch a ?st1 \<noteq> None)"
    by (cases "wait_for_frame sch a ?st1") (auto simp: Let_def update_image_def split: prod.splits)
  have r: "(\<exists>k \<le> length (evs # sch). updated (fold deliver (take (Suc k) (evs # sch)) st ! a)) =
           (updated (?st1 ! a) \<or> (\<exists>k \<le> length sch. updated (fold deliver (take (Suc k) sch) ?st1 ! a)))"
    (is "?L = ?R")
  proof
    assume ?L
    then obtain k where k: "k \<le> Suc (length sch)" "updated (fold deliver (take k sch) ?st1 ! a)"
      by auto
    show ?R
    proof (cases k)
      case 0
      with k show ?thesis by simp
    next
      case (Suc k')
      with k show ?thesis by auto
    qed
  next
    assume ?R
    then show ?L
    proof
      assume "updated (?st1 ! a)"
      then show ?L by (intro exI [of _ 0]) simp
    next
      assume "\<exists>k \<le> length sch. updated (fold deliver (take (Suc k) sch) ?st1 ! a)"
      then obtain k where "k \<le> length sch" "updated (fold deliver (take (Suc k) sch) ?st1 ! a)"
        by blast
      then show ?L by (intro exI [of _ "Suc k"]) simp
    qed
  qed
  from l r Cons.IH [of ?st1] show ?case by simp
qed

section \<open>A session with no requests, and the modes of the stream buffers\<close>

lemma configure_subdevices_skips:
  "\<forall>j \<in> set js. select_mode c (camera_info s) (requests s) j = Inr None \<Longrightarrow>
   configure_subdevices c js s = (Inr (), s)"
  by (induction js) simp_all

lemma routed_none_enabled:
  assumes "\<forall>r \<in> set rs. \<not> enabled r"
  shows "routed info rs i = []"
  using assms by (auto simp: routed_def filter_empty_conv)

lemma poll_streams_no_buffers:
  "\<forall>p \<in> set slots. snd p = None \<Longrightarrow> poll_streams mx slots sch st = Some ([], sch, st)"
proof (induction slots)
  case Nil
  show ?case by simp
next
  case (Cons p slots)
  then show ?case by (cases p) simp
qed

lemma max_fps_no_buffers: "\<forall>slot \<in> set slots. slot = None \<Longrightarrow> max_fps slots st = 0"
proof -
  assume a: "\<forall>slot \<in> set slots. slot = None"
  have "fold (\<lambda>slot maxFps. case slot of None \<Rightarrow> maxFps | Some a \<Rightarrow> max maxFps (fps (mode (st ! a)))) slots m = m"
    for m using a by (induction slots arbitrary: m) simp_all
  then show ?thesis by (simp add: max_fps_def)
qed

text \<open>
  C10, with \<open>select_mode\<close> as section 4.1 describes it. On a session with no first
  handle and no enabled request, whose constraint enforcement returns requests of which
  none is enabled, \<open>start_capture\<close> returns normally and sets \<open>is_capturing\<close>; no
  subdevice is open, no stream slot holds a buffer, no first handle is recorded and
  \<open>retrieve_calibration\<close> is not called. A \<open>wait_all_streams\<close> that follows computes a
  maximum fps of 0 and returns under every schedule, with no poll of \<open>update_image\<close> and
  the session unchanged.
\<close>

theorem start_capture_without_requests:
  assumes sel: "select_mode c = select_mode_spec"
    and fh: "first_handle s = None"
    and dis: "\<forall>r \<in> set (requests s). \<not> enabled r"
    and enf: "enforce_interstream_constraints c (requests s) = Inr rs"
    and dis': "\<forall>r \<in> set rs. \<not> enabled r"
  shows "fst (start_capture c s) = Inr () \<and>
         is_capturing (snd (start_capture c s)) \<and>
         open_subdevices (snd (start_capture c s)) = [] \<and>
         streams (snd (start_capture c s)) = replicate (length (streams s)) None \<and>
         first_handle (snd (start_capture c s)) = None \<and>
         calibration_calls (snd (start_capture c s)) = calibration_calls s \<and>
         max_fps (streams (snd (start_capture c s))) (store (snd (start_capture c s))) = 0 \<and>
         wait_all_streams sch (snd (start_capture c s)) = Some ([], sch, snd (start_capture c s))"
proof -
  let ?t = "(reset_all s)\<lparr>requests := rs\<rparr>"
  let ?u = "(set_streaming True ?t)\<lparr>is_capturing := True\<rparr>"
  have "\<forall>j \<in> set [0..<length (subdevices (reset_all s))].
          select_mode c (camera_info ?t) (requests ?t) j = Inr None"
    by (simp add: sel select_mode_spec_None routed_none_enabled [OF dis'])
  from configure_subdevices_skips [OF this] fh enf
  have o: "open_requested_subdevices c (reset_all s) = (Inr (), ?t)"
    by (simp add: open_requested_subdevices_def reset_all_def)
  from fh have f: "fetch_calibration c ?t = ?t"
    by (simp add: fetch_calibration_def reset_all_def)
  from o f have cfg: "configure_enabled_streams c s = (Inr (), ?t)"
    by (simp add: configure_enabled_streams_def)
  with fh have st: "start_capture c s = (Inr (), ?u)"
    by (simp add: start_capture_def)
  have str: "streams ?u = replicate (length (streams s)) None"
    by (simp add: set_streaming_def reset_all_def map_replicate_const)
  have sub: "open_subdevices ?u = []"
    by (simp add: open_subdevices_def set_streaming_def reset_all_def filter_empty_conv)
  have none: "\<forall>slot \<in> set (streams ?u). slot = None"
    unfolding str by simp
  have mx: "max_fps (streams ?u) (store ?u) = 0"
    by (rule max_fps_no_buffers [OF none])
  have "\<forall>p \<in> set (zip [0..<length (streams ?u)] (streams ?u)). snd p = None"
    using none by (auto dest: set_zip_rightD)
  from poll_streams_no_buffers [OF this]
  have w: "wait_all_streams sch ?u = Some ([], sch, ?u)"
    by (simp add: wait_all_streams_def)
  have rest: "is_capturing ?u" "first_handle ?u = None" "calibration_calls ?u = calibration_calls s"
    using fh by (simp_all add: set_streaming_def reset_all_def)
  from st str sub mx w rest show ?thesis by simp
qed

theorem start_capture_without_requests_witness:
  "select_mode example_camera = select_mode_spec \<and>
   first_handle fresh_session = None \<and>
   requests fresh_session =
     replicate 3 \<lparr>enabled = False, req_width = 0, req_height = 0, req_format = 0, req_fps = 0\<rparr> \<and>
   enforce_interstream_constraints example_camera (requests fresh_session) = Inr (requests fresh_session) \<and>
   fst (start_capture example_camera fresh_session) = Inr () \<and>
   is_capturing (snd (start_capture example_camera fresh_session)) \<and>
   open_subdevices (snd (start_capture example_camera fresh_session)) = [] \<and>
   streams (snd (start_capture example_camera fresh_session)) = replicate 3 None \<and>
   wait_all_streams depth_frame_only (snd (start_capture example_camera fresh_session)) =
     Some ([], depth_frame_only, snd (start_capture example_camera fresh_session))"
proof -
  have sel: "select_mode example_camera = select_mode_spec"
    and enf: "enforce_interstream_constraints example_camera (requests fresh_session) = Inr (requests fresh_session)"
    by (simp_all add: example_camera_def)
  have fh: "first_handle fresh_session = None"
    and rq: "requests fresh_session =
      replicate 3 \<lparr>enabled = False, req_width = 0, req_height = 0, req_format = 0, req_fps = 0\<rparr>"
    and len: "length (streams fresh_session) = 3"
    by (simp_all add: fresh_session_def rs_camera_new_def)
  from rq have dis: "\<forall>r \<in> set (requests fresh_session). \<not> enabled r"
    by simp
  from start_capture_without_requests [OF sel fh dis enf dis, of depth_frame_only] sel fh rq enf len
  show ?thesis by simp
qed

lemma upt_add_Suc: "[n..<n + Suc k] = n # [Suc n..<Suc n + k]"
  by (subst upt_rec) simp

lemma make_stream_buffers_result:
  "make_stream_buffers sms l s = (l', s') \<Longrightarrow>
     l' = l @ [length (store s)..<length (store s) + length sms] \<and>
     store s' = store s @ replicate (length sms) new_stream_buffer \<and>
     length (streams s') = length (streams s) \<and>
     (\<forall>st < length (streams s). \<forall>a. streams s' ! st = Some a \<longrightarrow>
        streams s ! st = Some a \<or>
        (\<exists>j < length sms. a = length (store s) + j \<and> stream (sms ! j) = st \<and>
           enabled (requests s ! st)))"
proof (induction sms arbitrary: l s)
  case Nil
  then show ?case by simp
next
  case (Cons sm sms)
  let ?n = "length (store s)"
  let ?s1 = "s\<lparr>store := store s @ [new_stream_buffer]\<rparr>"
  let ?s2 = "if enabled (requests ?s1 ! stream sm)
             then ?s1\<lparr>streams := (streams ?s1)[stream sm := Some ?n]\<rparr> else ?s1"
  from Cons.prems have m: "make_stream_buffers sms (l @ [?n]) ?s2 = (l', s')"
    by (simp add: Let_def)
  note ih = Cons.IH [OF m]
  have st2: "store ?s2 = store s @ [new_stream_buffer]" "length (streams ?s2) = length (streams s)"
    by simp_all
  have l': "l' = l @ [?n..<?n + length (sm # sms)]"
    using ih st2 upt_add_Suc [of ?n "length sms"] by (simp del: upt_Suc)
  have store': "store s' = store s @ replicate (length (sm # sms)) new_stream_buffer"
    using ih st2 by (simp add: replicate_app_Cons_same)
  have len: "length (streams s') = length (streams s)"
    using ih st2 by simp
  have slots: "streams s ! st = Some a \<or>
        (\<exists>j < length (sm # sms). a = ?n + j \<and> stream ((sm # sms) ! j) = st \<and>
           enabled (requests s ! st))"
    if st: "st < length (streams s)" and a: "streams s' ! st = Some a" for st a
  proof -
    have rq: "requests ?s2 = requests s" by simp
    from ih st a st2 have "streams ?s2 ! st = Some a \<or>
        (\<exists>j < length sms. a = Suc ?n + j \<and> stream (sms ! j) = st \<and> enabled (requests s ! st))"
      unfolding rq by simp
    then show ?thesis
    proof
      assume o: "streams ?s2 ! st = Some a"
      show ?thesis
      proof (cases "enabled (requests ?s1 ! stream sm) \<and> stream sm = st")
        case True
        then have "streams ?s2 = (streams s)[st := Some ?n]" by auto
        with o st have "a = ?n" by simp
        with True show ?thesis by (intro disjI2 exI [of _ 0]) auto
      next
        case False
        with o have "streams s ! st = Some a" by (auto split: if_splits)
        then show ?thesis by simp
      qed
    next
      assume "\<exists>j < length sms. a = Suc ?n + j \<and> stream (sms ! j) = st \<and> enabled (requests s ! st)"
      then obtain j where "j < length sms" "a = Suc ?n + j" "stream (sms ! j) = st"
        "enabled (requests s ! st)" by blast
      then show ?thesis by (intro disjI2 exI [of _ "Suc j"]) simp
    qed
  qed
  from l' store' len slots show ?case by blast
qed

lemma set_buffer_modes_result:
  "n + length sms \<le> length st \<Longrightarrow>
     length (set_buffer_modes gis (zip [n..<n + length sms] sms) st) = length st \<and>
     (\<forall>a < n. set_buffer_modes gis (zip [n..<n + length sms] sms) st ! a = st ! a) \<and>
     (\<forall>j < length sms. mode (set_buffer_modes gis (zip [n..<n + length sms] sms) st ! (n + j)) = sms ! j)"
proof (induction sms arbitrary: n st)
  case Nil
  show ?case by (simp add: set_buffer_modes_def)
next
  case (Cons sm sms)
  let ?st1 = "st[n := set_mode gis sm (st ! n)]"
  have z: "zip [n..<n + length (sm # sms)] (sm # sms) = (n, sm) # zip [Suc n..<Suc n + length sms] sms"
    using upt_add_Suc [of n "length sms"] by (simp del: upt_Suc)
  have e: "set_buffer_modes gis (zip [n..<n + length (sm # sms)] (sm # sms)) st =
           set_buffer_modes gis (zip [Suc n..<Suc n + length sms] sms) ?st1"
    by (simp only: z) (simp add: set_buffer_modes_def)
  from Cons.prems have "Suc n + length sms \<le> length ?st1" by simp
  note ih = Cons.IH [OF this]
  from Cons.prems have n: "n < length st" by simp
  have m0: "mode (?st1 ! n) = sm"
    using n by (simp add: set_mode_def Let_def)
  have "mode (set_buffer_modes gis (zip [Suc n..<Suc n + length sms] sms) ?st1 ! (n + j)) = (sm # sms) ! j"
    if "j < length (sm # sms)" for j
  proof (cases j)
    case 0
    with ih m0 show ?thesis by simp
  next
    case (Suc j')
    with that ih show ?thesis by simp
  qed
  moreover have "set_buffer_modes gis (zip [Suc n..<Suc n + length sms] sms) ?st1 ! a = st ! a"
    if "a < n" for a
    using ih that by simp
  ultimately show ?case using ih by (simp only: e) simp
qed

lemma open_subdevice_buffers_hold:
  assumes inv: "buffers_hold P s"
    and new: "\<forall>sm \<in> set (mode_streams m). enabled (requests s ! stream sm) \<longrightarrow> P (stream sm) sm"
  shows "buffers_hold P (open_subdevice c i m s)"
proof -
  let ?h = "\<lparr>handle = i, state = None, streaming = False\<rparr>"
  let ?s0 = "s\<lparr>subdevices := (subdevices s)[i := Some ?h]\<rparr>"
  let ?s1 = "if first_handle ?s0 = None then ?s0\<lparr>first_handle := Some (handle ?h)\<rparr> else ?s0"
  let ?sms = "mode_streams m"
  let ?n = "length (store s)"
  let ?k = "length ?sms"
  obtain l s2 where mk: "make_stream_buffers ?sms [] ?s1 = (l, s2)"
    by (cases "make_stream_buffers ?sms [] ?s1")
  have s1: "store ?s1 = store s" "streams ?s1 = streams s" "requests ?s1 = requests s"
    by simp_all
  from make_stream_buffers_result [OF mk] s1
  have l: "l = [?n..<?n + ?k]"
    and st2: "store s2 = store s @ replicate ?k new_stream_buffer"
    and len2: "length (streams s2) = length (streams s)"
    and slots: "\<forall>st < length (streams s). \<forall>a. streams s2 ! st = Some a \<longrightarrow>
        streams s ! st = Some a \<or>
        (\<exists>j < ?k. a = ?n + j \<and> stream (?sms ! j) = st \<and> enabled (requests s ! st))"
    by simp_all
  let ?st' = "set_buffer_modes (get_image_size c) (zip [?n..<?n + ?k] ?sms) (store s2)"
  from st2 have "?n + ?k \<le> length (store s2)" by simp
  from set_buffer_modes_result [OF this, of "get_image_size c"] st2
  have len': "length ?st' = ?n + ?k"
    and old: "\<forall>a < ?n. ?st' ! a = store s ! a"
    and fresh: "\<forall>j < ?k. mode (?st' ! (?n + j)) = ?sms ! j"
    by (simp_all add: nth_append)
  let ?t = "open_subdevice c i m s"
  from mk l have t: "streams ?t = streams s2" "store ?t = ?st'"
    by (simp_all add: open_subdevice_def subdevice_set_mode_def Let_def)
  have "a < length (store ?t) \<and> P st (mode (store ?t ! a))"
    if st: "st < length (streams ?t)" and a: "streams ?t ! st = Some a" for st a
  proof -
    from st t len2 have st': "st < length (streams s)" by simp
    from slots st' a t have "streams s ! st = Some a \<or>
        (\<exists>j < ?k. a = ?n + j \<and> stream (?sms ! j) = st \<and> enabled (requests s ! st))"
      by simp
    then show ?thesis
    proof
      assume "streams s ! st = Some a"
      with inv st' have "a < ?n" "P st (mode (store s ! a))"
        by (simp_all add: buffers_hold_def)
      with old len' t show ?thesis by simp
    next
      assume "\<exists>j < ?k. a = ?n + j \<and> stream (?sms ! j) = st \<and> enabled (requests s ! st)"
      then obtain j where j: "j < ?k" "a = ?n + j" "stream (?sms ! j) = st" "enabled (requests s ! st)"
        by blast
      from j(1) have "?sms ! j \<in> set ?sms" by (rule nth_mem)
      with new j have "P st (?sms ! j)" by blast
      with fresh j len' t show ?thesis by simp
    qed
  qed
  then show ?thesis by (simp add: buffers_hold_def)
qed

lemma configure_subdevices_buffers_hold:
  assumes "buffers_hold P s"
    and "\<forall>i \<in> set js. \<forall>m. select_mode c (camera_info s) (requests s) i = Inr (Some m) \<longrightarrow>
           (\<forall>sm \<in> set (mode_streams m). enabled (requests s ! stream sm) \<longrightarrow> P (stream sm) sm)"
  shows "buffers_hold P (snd (configure_subdevices c js s))"
  using assms
proof (induction js arbitrary: s)
  case Nil
  then show ?case by simp
next
  case (Cons i js)
  show ?case
  proof (cases "select_mode c (camera_info s) (requests s) i")
    case (Inl e)
    with Cons.prems show ?thesis by simp
  next
    case (Inr r)
    show ?thesis
    proof (cases r)
      case None
      with Inr Cons show ?thesis by simp
    next
      case (Some m)
      let ?t = "open_subdevice c i m s"
      from Cons.prems(2) Inr Some
      have new: "\<forall>sm \<in> set (mode_streams m). enabled (requests s ! stream sm) \<longrightarrow> P (stream sm) sm"
        by simp
      have h: "buffers_hold P ?t"
        by (rule open_subdevice_buffers_hold [OF Cons.prems(1) new])
      from open_subdevice_fields [of c i m s]
      have eq: "camera_info ?t = camera_info s" "requests ?t = requests s" by simp_all
      from Cons.prems(2) eq
      have "\<forall>i \<in> set js. \<forall>m. select_mode c (camera_info ?t) (requests ?t) i = Inr (Some m) \<longrightarrow>
           (\<forall>sm \<in> set (mode_streams m). enabled (requests ?t ! stream sm) \<longrightarrow> P (stream sm) sm)"
        by simp
      from Cons.IH [OF h this] Inr Some show ?thesis by simp
    qed
  qed
qed

lemma negotiated_cong:
  "camera_info t = camera_info s \<Longrightarrow> requests t = requests s \<Longrightarrow>
   length (subdevices t) = length (subdevices s) \<Longrightarrow> negotiated c t = negotiated c s"
  by (simp add: negotiated_def fun_eq_iff)

lemma buffers_hold_no_buffers:
  assumes "\<forall>slot \<in> set (streams s). slot = None"
  shows "buffers_hold P s"
proof -
  have "streams s ! st = None" if "st < length (streams s)" for st
    using assms nth_mem [OF that] by blast
  then show ?thesis by (simp add: buffers_hold_def)
qed

lemma open_requested_buffers_negotiated:
  assumes "\<forall>slot \<in> set (streams s). slot = None"
  shows "buffers_hold (negotiated c (snd (open_requested_subdevices c s)))
           (snd (open_requested_subdevices c s))"
proof (cases "first_handle s = None")
  case False
  then show ?thesis
    by (auto simp: open_requested_subdevices_def intro: buffers_hold_no_buffers [OF assms])
next
  case True
  show ?thesis
  proof (cases "enforce_interstream_constraints c (requests s)")
    case (Inl e)
    with True show ?thesis
      by (simp add: open_requested_subdevices_def buffers_hold_no_buffers [OF assms])
  next
    case (Inr rs)
    let ?t = "s\<lparr>requests := rs\<rparr>"
    let ?js = "[0..<length (subdevices s)]"
    let ?u = "snd (configure_subdevices c ?js ?t)"
    from assms have b: "buffers_hold (negotiated c ?t) ?t"
      by (intro buffers_hold_no_buffers) simp
    have new: "\<forall>i \<in> set ?js. \<forall>m. select_mode c (camera_info ?t) (requests ?t) i = Inr (Some m) \<longrightarrow>
           (\<forall>sm \<in> set (mode_streams m). enabled (requests ?t ! stream sm) \<longrightarrow>
              negotiated c ?t (stream sm) sm)"
      by (auto simp: negotiated_def intro!: bexI)
    have h: "buffers_hold (negotiated c ?t) ?u"
      by (rule configure_subdevices_buffers_hold [OF b new])
    from configure_subdevices_fields [of c ?js ?t]
    have "negotiated c ?u = negotiated c ?t"
      by (intro negotiated_cong) simp_all
    with h True Inr show ?thesis
      by (simp add: open_requested_subdevices_def)
  qed
qed

lemma configure_buffers_negotiated:
  "buffers_hold (negotiated c (snd (configure_enabled_streams c s)))
     (snd (configure_enabled_streams c s))"
proof -
  let ?r = "reset_all s"
  let ?o = "snd (open_requested_subdevices c ?r)"
  have "\<forall>slot \<in> set (streams ?r). slot = None"
    by (auto simp: reset_all_def)
  note h = open_requested_buffers_negotiated [OF this, of c]
  have f: "buffers_hold (negotiated c (fetch_calibration c ?o)) (fetch_calibration c ?o)"
  proof -
    have "negotiated c (fetch_calibration c ?o) = negotiated c ?o"
      by (intro negotiated_cong) (simp_all add: fetch_calibration_def)
    with h show ?thesis
      by (simp add: buffers_hold_def fetch_calibration_def)
  qed
  from h f show ?thesis
    by (cases "open_requested_subdevices c ?r")
       (auto simp: configure_enabled_streams_def split: sum.splits)
qed

section \<open>The subdevices that configure_enabled_streams visits\<close>

lemma first_unsatisfied:
  assumes "\<exists>i < (n :: nat). B i"
  shows "\<exists>i < n. B i \<and> (\<forall>j < i. \<not> B j)"
proof -
  from assms have "\<exists>i. i < n \<and> B i" by blast
  then obtain i where i: "i < n \<and> B i" and m: "\<forall>j < i. \<not> (j < n \<and> B j)"
    using exists_least_iff [of "\<lambda>i. i < n \<and> B i"] by blast
  from i m have "\<forall>j < i. \<not> B j"
    by (metis less_trans)
  with i show ?thesis by blast
qed

lemma configure_lengths:
  "length (streams (snd (configure_enabled_streams c s))) = length (streams s) \<and>
   length (subdevices (snd (configure_enabled_streams c s))) = length (subdevices s)"
proof -
  let ?r = "reset_all s"
  have r: "length (streams ?r) = length (streams s)" "length (subdevices ?r) = length (subdevices s)"
    by (simp_all add: reset_all_def)
  have o: "length (streams (snd (open_requested_subdevices c ?r))) = length (streams ?r) \<and>
           length (subdevices (snd (open_requested_subdevices c ?r))) = length (subdevices ?r)"
  proof (cases "first_handle ?r = None")
    case False
    then show ?thesis by (auto simp: open_requested_subdevices_def)
  next
    case True
    show ?thesis
    proof (cases "enforce_interstream_constraints c (requests ?r)")
      case (Inl e)
      with True show ?thesis by (simp add: open_requested_subdevices_def)
    next
      case (Inr rs)
      with True configure_subdevices_fields [of c "[0..<length (subdevices ?r)]" "?r\<lparr>requests := rs\<rparr>"]
      show ?thesis by (simp add: open_requested_subdevices_def)
    qed
  qed
  from o r show ?thesis
    by (cases "open_requested_subdevices c ?r")
       (auto simp: configure_enabled_streams_def fetch_calibration_def split: sum.splits)
qed

lemma configure_camera_info:
  "camera_info (snd (configure_enabled_streams c s)) = camera_info s"
proof -
  let ?r = "reset_all s"
  have o: "camera_info (snd (open_requested_subdevices c ?r)) = camera_info s"
  proof (cases "first_handle ?r = None")
    case False
    then show ?thesis by (auto simp: open_requested_subdevices_def reset_all_def)
  next
    case True
    show ?thesis
    proof (cases "enforce_interstream_constraints c (requests ?r)")
      case (Inl e)
      with True show ?thesis by (simp add: open_requested_subdevices_def reset_all_def)
    next
      case (Inr rs)
      with True configure_subdevices_fields [of c "[0..<length (subdevices ?r)]" "?r\<lparr>requests := rs\<rparr>"]
      show ?thesis by (simp add: open_requested_subdevices_def reset_all_def)
    qed
  qed
  then show ?thesis
    by (cases "open_requested_subdevices c ?r")
       (auto simp: configure_enabled_streams_def fetch_calibration_def split: sum.splits)
qed

lemma run_op_catalog:
  assumes r: "run_op c x s = Some s'"
  shows "camera_info s' = camera_info s \<and> length (subdevices s') = length (subdevices s)"
proof (cases x)
  case (Enable_stream st w h f r)
  with r show ?thesis by (auto simp: enable_stream_def)
next
  case (Enable_stream_preset st p)
  with r show ?thesis by (auto simp: enable_stream_preset_def)
next
  case Configure_enabled_streams
  with r configure_camera_info [of c s] configure_lengths [of c s] show ?thesis by auto
next
  case Start_capture
  with r configure_camera_info [of c s] configure_lengths [of c s] show ?thesis
    by (cases "configure_enabled_streams c s")
       (auto simp: start_capture_def set_streaming_def split: sum.splits if_splits)
next
  case Stop_capture
  with r show ?thesis by (auto simp: stop_capture_def set_streaming_def)
next
  case (Wait_all_streams sch)
  with r obtain tr sch' where "wait_all_streams sch s = Some (tr, sch', s')" by auto
  from wait_all_streams_fields [OF this] show ?thesis by auto
next
  case (Frame_arrives cs f)
  with r show ?thesis by auto
qed

lemma run_ops_catalog:
  "run_ops c xs s = Some s' \<Longrightarrow>
   camera_info s' = camera_info s \<and> length (subdevices s') = length (subdevices s)"
proof (induction xs arbitrary: s)
  case Nil
  then show ?case by simp
next
  case (Cons x xs)
  from Cons.prems obtain s1 where s1: "run_op c x s = Some s1" and rest: "run_ops c xs s1 = Some s'"
    by (auto split: option.splits)
  from run_op_catalog [OF s1] Cons.IH [OF rest] show ?case by simp
qed

lemma fold_max_subdevice:
  "fold (\<lambda>m acc. max acc (g m)) ms (m0 :: int) = Max (insert m0 (g ` set ms))"
proof (induction ms arbitrary: m0)
  case Nil
  show ?case by simp
next
  case (Cons m ms)
  have fin: "finite (g ` set ms)" by simp
  from Cons Max_insert_max [OF fin, of m0 "g m"] show ?case
    by (simp add: insert_commute)
qed

lemma max_subdevice_Max:
  "max_subdevice info = Max (insert 0 (subdevice ` set (subdevice_modes info)))"
  unfolding max_subdevice_def by (rule fold_max_subdevice)

lemma new_session_subdevices:
  assumes "run_ops c ops (rs_camera_new n info) = Some s"
  shows "camera_info s = info \<and>
         length (subdevices s) = nat (Max (insert 0 (subdevice ` set (subdevice_modes info))) + 1)"
  using run_ops_catalog [OF assms] by (simp add: rs_camera_new_def max_subdevice_Max)

text \<open>
  C2, as the code has it, with \<open>select_mode\<close> as section 4.1 describes it, on a session
  with no first handle recorded whose constraint enforcement returns normally. The loop of
  \<open>configure_enabled_streams\<close> visits the subdevice indices below \<open>subdevices.size()\<close>.
  When subdevice \<open>i\<close> is the first of them that has an enabled request routed to it and
  no catalog mode that satisfies its requests, the call throws: the subdevice is not
  skipped. The subdevices below \<open>i\<close> that have routed requests were opened before the
  throw and stay open; those with no routed request were skipped. When every visited
  subdevice either has no routed request or has a satisfying mode, the call returns and
  exactly the visited subdevices with routed requests are open, whatever is routed to an
  index that the loop does not visit. So the call throws whenever some visited subdevice
  has routed requests and no satisfying mode. In every session reached from a new one, the
  catalog is the one the constructor was given and the number of subdevice slots is the
  one the constructor set: one more than the largest subdevice index among the catalog
  modes, and at least 1.
\<close>

theorem unsatisfied_subdevice_fails:
  assumes sel: "select_mode c = select_mode_spec"
    and fh: "first_handle s = None"
    and enf: "enforce_interstream_constraints c (requests s) = Inr rs"
  shows "(i < length (subdevices s) \<and> routed (camera_info s) rs i \<noteq> [] \<and>
          (\<forall>m \<in> set (subdevice_modes (camera_info s)). \<not> mode_satisfies (camera_info s) rs i m) \<and>
          (\<forall>j < i. routed (camera_info s) rs j = [] \<or>
                   (\<exists>m \<in> set (subdevice_modes (camera_info s)). mode_satisfies (camera_info s) rs j m)) \<longrightarrow>
            fst (configure_enabled_streams c s) =
              Inl (runtime_error ''no mode satisfies the requested streams'') \<and>
            open_subdevices (snd (configure_enabled_streams c s)) =
              filter (\<lambda>j. routed (camera_info s) rs j \<noteq> []) [0..<i]) \<and>
         ((\<forall>j < length (subdevices s). routed (camera_info s) rs j = [] \<or>
                   (\<exists>m \<in> set (subdevice_modes (camera_info s)). mode_satisfies (camera_info s) rs j m)) \<longrightarrow>
            fst (configure_enabled_streams c s) = Inr () \<and>
            open_subdevices (snd (configure_enabled_streams c s)) =
              filter (\<lambda>j. routed (camera_info s) rs j \<noteq> []) [0..<length (subdevices s)]) \<and>
         ((\<exists>k < length (subdevices s). routed (camera_info s) rs k \<noteq> [] \<and>
             (\<forall>m \<in> set (subdevice_modes (camera_info s)). \<not> mode_satisfies (camera_info s) rs k m)) \<longrightarrow>
            fst (configure_enabled_streams c s) =
              Inl (runtime_error ''no mode satisfies the requested streams'')) \<and>
         (run_ops c ops (rs_camera_new n info) = Some s \<longrightarrow>
            camera_info s = info \<and>
            length (subdevices s) = nat (Max (insert 0 (subdevice ` set (subdevice_modes info))) + 1))"
proof -
  let ?bad = "\<lambda>k. routed (camera_info s) rs k \<noteq> [] \<and>
     (\<forall>m \<in> set (subdevice_modes (camera_info s)). \<not> mode_satisfies (camera_info s) rs k m)"
  have fails: "fst (configure_enabled_streams c s) =
              Inl (runtime_error ''no mode satisfies the requested streams'') \<and>
            open_subdevices (snd (configure_enabled_streams c s)) =
              filter (\<lambda>j. routed (camera_info s) rs j \<noteq> []) [0..<k]"
    if k: "k < length (subdevices s)" and b: "?bad k" and first: "\<forall>j < k. \<not> ?bad j" for k
  proof -
    from b have bad: "select_mode c (camera_info s) rs k =
        Inl (runtime_error ''no mode satisfies the requested streams'')"
      by (simp add: sel select_mode_spec_Inl)
    from first have ok: "\<forall>j < k. \<forall>e. select_mode c (camera_info s) rs j \<noteq> Inl e"
      by (auto simp: sel select_mode_spec_Inl)
    from negotiation_fails [OF fh enf k bad ok] show ?thesis
      by (simp add: sel select_mode_spec_None)
  qed
  have c1: "i < length (subdevices s) \<and> routed (camera_info s) rs i \<noteq> [] \<and>
          (\<forall>m \<in> set (subdevice_modes (camera_info s)). \<not> mode_satisfies (camera_info s) rs i m) \<and>
          (\<forall>j < i. routed (camera_info s) rs j = [] \<or>
                   (\<exists>m \<in> set (subdevice_modes (camera_info s)). mode_satisfies (camera_info s) rs j m)) \<longrightarrow>
            fst (configure_enabled_streams c s) =
              Inl (runtime_error ''no mode satisfies the requested streams'') \<and>
            open_subdevices (snd (configure_enabled_streams c s)) =
              filter (\<lambda>j. routed (camera_info s) rs j \<noteq> []) [0..<i]"
  proof
    assume a: "i < length (subdevices s) \<and> routed (camera_info s) rs i \<noteq> [] \<and>
          (\<forall>m \<in> set (subdevice_modes (camera_info s)). \<not> mode_satisfies (camera_info s) rs i m) \<and>
          (\<forall>j < i. routed (camera_info s) rs j = [] \<or>
                   (\<exists>m \<in> set (subdevice_modes (camera_info s)). mode_satisfies (camera_info s) rs j m))"
    then have "i < length (subdevices s)" "?bad i" "\<forall>j < i. \<not> ?bad j"
      by blast+
    then show "fst (configure_enabled_streams c s) =
              Inl (runtime_error ''no mode satisfies the requested streams'') \<and>
            open_subdevices (snd (configure_enabled_streams c s)) =
              filter (\<lambda>j. routed (camera_info s) rs j \<noteq> []) [0..<i]"
      by (rule fails)
  qed
  have c2: "(\<forall>j < length (subdevices s). routed (camera_info s) rs j = [] \<or>
                   (\<exists>m \<in> set (subdevice_modes (camera_info s)). mode_satisfies (camera_info s) rs j m)) \<longrightarrow>
            fst (configure_enabled_streams c s) = Inr () \<and>
            open_subdevices (snd (configure_enabled_streams c s)) =
              filter (\<lambda>j. routed (camera_info s) rs j \<noteq> []) [0..<length (subdevices s)]"
  proof
    assume a: "\<forall>j < length (subdevices s). routed (camera_info s) rs j = [] \<or>
                   (\<exists>m \<in> set (subdevice_modes (camera_info s)). mode_satisfies (camera_info s) rs j m)"
    then have ok: "\<forall>j < length (subdevices s). \<forall>e. select_mode c (camera_info s) rs j \<noteq> Inl e"
      by (auto simp: sel select_mode_spec_Inl)
    from negotiation_succeeds [OF fh enf ok]
    show "fst (configure_enabled_streams c s) = Inr () \<and>
            open_subdevices (snd (configure_enabled_streams c s)) =
              filter (\<lambda>j. routed (camera_info s) rs j \<noteq> []) [0..<length (subdevices s)]"
      by (simp add: sel select_mode_spec_None)
  qed
  have c3: "(\<exists>k < length (subdevices s). ?bad k) \<longrightarrow>
            fst (configure_enabled_streams c s) =
              Inl (runtime_error ''no mode satisfies the requested streams'')"
  proof
    assume "\<exists>k < length (subdevices s). ?bad k"
    from first_unsatisfied [OF this] obtain k where
      "k < length (subdevices s)" "?bad k" "\<forall>j < k. \<not> ?bad j"
      by blast
    from fails [OF this] show "fst (configure_enabled_streams c s) =
              Inl (runtime_error ''no mode satisfies the requested streams'')"
      by simp
  qed
  have c4: "run_ops c ops (rs_camera_new n info) = Some s \<longrightarrow>
            camera_info s = info \<and>
            length (subdevices s) = nat (Max (insert 0 (subdevice ` set (subdevice_modes info))) + 1)"
    using new_session_subdevices by blast
  from c1 c2 c3 c4 show ?thesis by blast
qed

theorem unsatisfied_subdevice_fails_witness:
  "select_mode example_camera = select_mode_spec \<and>
   first_handle unsupported_depth = None \<and>
   enforce_interstream_constraints example_camera (requests unsupported_depth) = Inr (requests unsupported_depth) \<and>
   routed (camera_info unsupported_depth) (requests unsupported_depth) 1 = [0] \<and>
   routed (camera_info unsupported_depth) (requests unsupported_depth) 0 = [1] \<and>
   mode_satisfies (camera_info unsupported_depth) (requests unsupported_depth) 0 color_mode \<and>
   \<not> mode_satisfies (camera_info unsupported_depth) (requests unsupported_depth) 1 color_mode \<and>
   \<not> mode_satisfies (camera_info unsupported_depth) (requests unsupported_depth) 1 depth_mode \<and>
   fst (configure_enabled_streams example_camera unsupported_depth) =
     Inl (runtime_error ''no mode satisfies the requested streams'') \<and>
   open_subdevices (snd (configure_enabled_streams example_camera unsupported_depth)) = [0] \<and>
   first_handle only_unsupported_depth = None \<and>
   routed (camera_info only_unsupported_depth) (requests only_unsupported_depth) 0 = [] \<and>
   fst (configure_enabled_streams example_camera only_unsupported_depth) =
     Inl (runtime_error ''no mode satisfies the requested streams'') \<and>
   open_subdevices (snd (configure_enabled_streams example_camera only_unsupported_depth)) = [] \<and>
   fst (configure_enabled_streams example_camera (snd (enable_stream fresh_session 1 640 480 1 30))) = Inr () \<and>
   open_subdevices (snd (configure_enabled_streams example_camera (snd (enable_stream fresh_session 1 640 480 1 30)))) = [0] \<and>
   run_ops example_camera [Enable_stream 1 640 480 1 30, Enable_stream 0 320 240 2 30]
     (rs_camera_new 3 example_info) = Some unsupported_depth \<and>
   camera_info unsupported_depth = example_info \<and>
   length (subdevices unsupported_depth) = 2"
proof -
  let ?color_only = "snd (enable_stream fresh_session 1 640 480 1 30)"
  have sel: "select_mode example_camera = select_mode_spec"
    by (simp add: example_camera_def)
  have fh: "first_handle unsupported_depth = None" "first_handle only_unsupported_depth = None"
    "first_handle ?color_only = None"
    by (simp_all add: example_defs)
  have enf: "enforce_interstream_constraints example_camera (requests unsupported_depth) = Inr (requests unsupported_depth)"
    "enforce_interstream_constraints example_camera (requests only_unsupported_depth) = Inr (requests only_unsupported_depth)"
    "enforce_interstream_constraints example_camera (requests ?color_only) = Inr (requests ?color_only)"
    by (simp_all add: example_camera_def)
  have len: "length (subdevices unsupported_depth) = 2" "length (subdevices only_unsupported_depth) = 2"
    "length (subdevices ?color_only) = 2"
    by (simp_all add: example_defs)
  have modes: "subdevice_modes (camera_info unsupported_depth) = [color_mode, depth_mode]"
    "subdevice_modes (camera_info only_unsupported_depth) = [color_mode, depth_mode]"
    "subdevice_modes (camera_info ?color_only) = [color_mode, depth_mode]"
    by (simp_all add: unsupported_depth_def only_unsupported_depth_def fresh_session_def
          rs_camera_new_def enable_stream_def example_info_def)
  have r1: "routed (camera_info unsupported_depth) (requests unsupported_depth) 1 = [0]"
    "routed (camera_info unsupported_depth) (requests unsupported_depth) 0 = [1]"
    "routed (camera_info only_unsupported_depth) (requests only_unsupported_depth) 1 = [0]"
    "routed (camera_info only_unsupported_depth) (requests only_unsupported_depth) 0 = []"
    "routed (camera_info ?color_only) (requests ?color_only) 1 = []"
    "routed (camera_info ?color_only) (requests ?color_only) 0 = [1]"
    by (simp_all add: example_defs)
  have m1: "mode_satisfies (camera_info unsupported_depth) (requests unsupported_depth) 0 color_mode"
    "\<not> mode_satisfies (camera_info unsupported_depth) (requests unsupported_depth) 1 color_mode"
    "\<not> mode_satisfies (camera_info unsupported_depth) (requests unsupported_depth) 1 depth_mode"
    "\<not> mode_satisfies (camera_info only_unsupported_depth) (requests only_unsupported_depth) 1 color_mode"
    "\<not> mode_satisfies (camera_info only_unsupported_depth) (requests only_unsupported_depth) 1 depth_mode"
    "mode_satisfies (camera_info ?color_only) (requests ?color_only) 0 color_mode"
    by (simp_all add: example_defs)
  have p1: "1 < length (subdevices unsupported_depth) \<and>
      routed (camera_info unsupported_depth) (requests unsupported_depth) 1 \<noteq> [] \<and>
      (\<forall>m \<in> set (subdevice_modes (camera_info unsupported_depth)).
         \<not> mode_satisfies (camera_info unsupported_depth) (requests unsupported_depth) 1 m) \<and>
      (\<forall>j < 1. routed (camera_info unsupported_depth) (requests unsupported_depth) j = [] \<or>
         (\<exists>m \<in> set (subdevice_modes (camera_info unsupported_depth)).
            mode_satisfies (camera_info unsupported_depth) (requests unsupported_depth) j m))"
    using len(1) modes(1) r1(1,2) m1(1,2,3) by simp
  have p2: "1 < length (subdevices only_unsupported_depth) \<and>
      routed (camera_info only_unsupported_depth) (requests only_unsupported_depth) 1 \<noteq> [] \<and>
      (\<forall>m \<in> set (subdevice_modes (camera_info only_unsupported_depth)).
         \<not> mode_satisfies (camera_info only_unsupported_depth) (requests only_unsupported_depth) 1 m) \<and>
      (\<forall>j < 1. routed (camera_info only_unsupported_depth) (requests only_unsupported_depth) j = [] \<or>
         (\<exists>m \<in> set (subdevice_modes (camera_info only_unsupported_depth)).
            mode_satisfies (camera_info only_unsupported_depth) (requests only_unsupported_depth) j m))"
    using len(2) modes(2) r1(3,4) m1(4,5) by simp
  have p3: "\<forall>j < length (subdevices ?color_only).
      routed (camera_info ?color_only) (requests ?color_only) j = [] \<or>
      (\<exists>m \<in> set (subdevice_modes (camera_info ?color_only)).
         mode_satisfies (camera_info ?color_only) (requests ?color_only) j m)"
    using modes(3) r1(5,6) m1(6) unfolding len(3) by (simp add: less_Suc_eq numeral_2_eq_2)
  note t1 = unsatisfied_subdevice_fails [OF sel fh(1) enf(1), where i = 1
      and ops = "[Enable_stream 1 640 480 1 30, Enable_stream 0 320 240 2 30]" and n = 3 and info = example_info]
  from t1 [THEN conjunct1] p1
  have c1: "fst (configure_enabled_streams example_camera unsupported_depth) =
      Inl (runtime_error ''no mode satisfies the requested streams'') \<and>
    open_subdevices (snd (configure_enabled_streams example_camera unsupported_depth)) =
      filter (\<lambda>j. routed (camera_info unsupported_depth) (requests unsupported_depth) j \<noteq> []) [0..<1]"
    by blast
  note t2 = unsatisfied_subdevice_fails [OF sel fh(2) enf(2), where i = 1
      and ops = "[Enable_stream 0 320 240 2 30]" and n = 3 and info = example_info]
  from t2 [THEN conjunct1] p2
  have c2: "fst (configure_enabled_streams example_camera only_unsupported_depth) =
      Inl (runtime_error ''no mode satisfies the requested streams'') \<and>
    open_subdevices (snd (configure_enabled_streams example_camera only_unsupported_depth)) =
      filter (\<lambda>j. routed (camera_info only_unsupported_depth) (requests only_unsupported_depth) j \<noteq> []) [0..<1]"
    by blast
  note t3 = unsatisfied_subdevice_fails [OF sel fh(3) enf(3), where i = 0
      and ops = "[Enable_stream 1 640 480 1 30]" and n = 3 and info = example_info]
  from t3 [THEN conjunct2, THEN conjunct1] p3
  have c3: "fst (configure_enabled_streams example_camera ?color_only) = Inr () \<and>
    open_subdevices (snd (configure_enabled_streams example_camera ?color_only)) =
      filter (\<lambda>j. routed (camera_info ?color_only) (requests ?color_only) j \<noteq> []) [0..<length (subdevices ?color_only)]"
    by blast
  have u: "[0..<2] = [0, Suc 0]" "[0..<1] = [0::nat]"
    by (simp_all add: upt_rec)
  from c1 r1(1,2) have d1: "fst (configure_enabled_streams example_camera unsupported_depth) =
      Inl (runtime_error ''no mode satisfies the requested streams'') \<and>
    open_subdevices (snd (configure_enabled_streams example_camera unsupported_depth)) = [0]"
    by (simp add: u)
  from c2 r1(3,4) have d2: "fst (configure_enabled_streams example_camera only_unsupported_depth) =
      Inl (runtime_error ''no mode satisfies the requested streams'') \<and>
    open_subdevices (snd (configure_enabled_streams example_camera only_unsupported_depth)) = []"
    by (simp add: u)
  from c3 r1(5,6) have d3: "fst (configure_enabled_streams example_camera ?color_only) = Inr () \<and>
    open_subdevices (snd (configure_enabled_streams example_camera ?color_only)) = [0]"
    unfolding len(3) by (simp add: u)
  have run: "run_ops example_camera [Enable_stream 1 640 480 1 30, Enable_stream 0 320 240 2 30]
     (rs_camera_new 3 example_info) = Some unsupported_depth"
    by (simp add: unsupported_depth_def fresh_session_def)
  have p4: "\<exists>k < length (subdevices unsupported_depth).
      routed (camera_info unsupported_depth) (requests unsupported_depth) k \<noteq> [] \<and>
      (\<forall>m \<in> set (subdevice_modes (camera_info unsupported_depth)).
         \<not> mode_satisfies (camera_info unsupported_depth) (requests unsupported_depth) k m)"
    using p1 by blast
  note e1 = mp [OF t1 [THEN conjunct2, THEN conjunct2, THEN conjunct1] p4]
  note e2 = mp [OF t1 [THEN conjunct2, THEN conjunct2, THEN conjunct2] run]
  have "nat (Max (insert 0 (subdevice ` set (subdevice_modes example_info))) + 1) = 2"
    by (simp add: example_info_def color_mode_def depth_mode_def)
  with e2 have sz: "camera_info unsupported_depth = example_info"
    "length (subdevices unsupported_depth) = 2"
    by simp_all
  from sel fh(1,2) enf(1) r1(1,2,4) m1(1,2,3) d1 d2 d3 e1 run sz
  show ?thesis by blast
qed

text \<open>
  C2 as stated fails twice. In the example scenario, with color at 640x480@30 and depth at
  a resolution the catalog lacks, the call throws after subdevice 0 was opened for color,
  and subdevice 0 stays open. And with the catalog that lists no mode of subdevice 1, the
  session has one subdevice slot: the depth request is routed to subdevice 1, no catalog
  mode satisfies it, and the call returns normally with nothing open.
\<close>

theorem unsupported_depth_leaves_subdevice_open:
  "fst (configure_enabled_streams example_camera unsupported_depth) =
     Inl (runtime_error ''no mode satisfies the requested streams'') \<and>
   open_subdevices (snd (configure_enabled_streams example_camera unsupported_depth)) = [0] \<and>
   first_handle (snd (configure_enabled_streams example_camera unsupported_depth)) = Some 0 \<and>
   length (subdevices depth_on_missing_subdevice) = 1 \<and>
   routed (camera_info depth_on_missing_subdevice) (requests depth_on_missing_subdevice) 1 = [0] \<and>
   subdevice_modes (camera_info depth_on_missing_subdevice) = [color_mode] \<and>
   \<not> mode_satisfies (camera_info depth_on_missing_subdevice) (requests depth_on_missing_subdevice) 1
       color_mode \<and>
   fst (configure_enabled_streams example_camera depth_on_missing_subdevice) = Inr () \<and>
   open_subdevices (snd (configure_enabled_streams example_camera depth_on_missing_subdevice)) = []"
  by (simp add: depth_on_missing_subdevice_def color_only_info_def example_defs)

section \<open>The calibration fetch\<close>

lemma open_subdevices_exists:
  assumes "\<exists>h \<in> set (subdevices s). h \<noteq> None"
  shows "open_subdevices s \<noteq> []"
proof -
  from assms obtain i where "i < length (subdevices s)" "subdevices s ! i \<noteq> None"
    by (auto simp: in_set_conv_nth)
  then show ?thesis
    by (auto simp: open_subdevices_def filter_empty_conv)
qed

lemma configure_subdevices_open_when_recorded:
  assumes "\<forall>j \<in> set js. j < length (subdevices s)"
    and "first_handle s \<noteq> None \<longrightarrow> (\<exists>h \<in> set (subdevices s). h \<noteq> None)"
  shows "first_handle (snd (configure_subdevices c js s)) \<noteq> None \<longrightarrow>
         (\<exists>h \<in> set (subdevices (snd (configure_subdevices c js s))). h \<noteq> None)"
  using assms
proof (induction js arbitrary: s)
  case Nil
  then show ?case by simp
next
  case (Cons i js)
  from Cons.prems(1) have i: "i < length (subdevices s)" and js: "\<forall>j \<in> set js. j < length (subdevices s)"
    by simp_all
  show ?case
  proof (cases "select_mode c (camera_info s) (requests s) i")
    case (Inl e)
    with Cons.prems(2) show ?thesis by simp
  next
    case (Inr r)
    show ?thesis
    proof (cases r)
      case None
      with Inr Cons.IH [OF js Cons.prems(2)] show ?thesis by simp
    next
      case (Some m)
      let ?t = "open_subdevice c i m s"
      obtain h where h: "subdevices ?t = (subdevices s)[i := Some h]"
        using open_subdevice_fields [of c i m s] by blast
      with i have "Some h \<in> set (subdevices ?t)"
        by (simp add: set_update_memI)
      then have o: "first_handle ?t \<noteq> None \<longrightarrow> (\<exists>h \<in> set (subdevices ?t). h \<noteq> None)"
        by blast
      from h js have js': "\<forall>j \<in> set js. j < length (subdevices ?t)" by simp
      from Inr Some Cons.IH [OF js' o] show ?thesis by simp
    qed
  qed
qed

lemma configure_fetch:
  "calibration_calls (snd (configure_enabled_streams c s)) = calibration_calls s \<or>
   calibration_calls (snd (configure_enabled_streams c s)) = Suc (calibration_calls s) \<and>
   intrinsics (calib s) = [] \<and> fst (configure_enabled_streams c s) = Inr () \<and>
   (first_handle s = None \<longrightarrow> open_subdevices (snd (configure_enabled_streams c s)) \<noteq> [])"
proof -
  let ?r = "reset_all s"
  obtain r s1 where o: "open_requested_subdevices c ?r = (r, s1)"
    by (cases "open_requested_subdevices c ?r")
  from open_requested_fields [of c ?r] o
  have f: "calib s1 = calib s" "calibration_calls s1 = calibration_calls s"
    by (simp_all add: reset_all_def)
  show ?thesis
  proof (cases r)
    case (Inl e)
    with o f show ?thesis by (simp add: configure_enabled_streams_def)
  next
    case (Inr u)
    with o have e: "configure_enabled_streams c s = (Inr (), fetch_calibration c s1)"
      by (simp add: configure_enabled_streams_def)
    show ?thesis
    proof (cases "intrinsics (calib s1) = [] \<and> first_handle s1 \<noteq> None")
      case False
      with e f show ?thesis by (auto simp: fetch_calibration_def)
    next
      case True
      have op: "open_subdevices (fetch_calibration c s1) \<noteq> []" if fh: "first_handle s = None"
      proof -
        from fh have fr: "first_handle ?r = None" by (simp add: reset_all_def)
        show ?thesis
        proof (cases "enforce_interstream_constraints c (requests ?r)")
          case (Inl e)
          with fr o have "s1 = ?r" by (simp add: open_requested_subdevices_def)
          with fr True show ?thesis by simp
        next
          case (Inr rs)
          let ?t = "?r\<lparr>requests := rs\<rparr>"
          from fr Inr o have s1: "s1 = snd (configure_subdevices c [0..<length (subdevices ?r)] ?t)"
            by (simp add: open_requested_subdevices_def)
          have a: "\<forall>j \<in> set [0..<length (subdevices ?r)]. j < length (subdevices ?t)" by simp
          from fr have b: "first_handle ?t \<noteq> None \<longrightarrow> (\<exists>h \<in> set (subdevices ?t). h \<noteq> None)" by simp
          from configure_subdevices_open_when_recorded [OF a b, of c] s1 True
          have "\<exists>h \<in> set (subdevices s1). h \<noteq> None" by simp
          from open_subdevices_exists [OF this] show ?thesis
            by (simp add: open_subdevices_fetch_calibration)
        qed
      qed
      from True e f op show ?thesis by (simp add: fetch_calibration_def)
    qed
  qed
qed

lemma open_subdevices_set_streaming:
  "open_subdevices ((set_streaming v s)\<lparr>is_capturing := b\<rparr>) = open_subdevices s"
  unfolding open_subdevices_def set_streaming_def
  by (rule filter_cong) (auto simp: nth_map)

lemma start_capture_fetch:
  "calibration_calls (snd (start_capture c s)) = calibration_calls s \<or>
   calibration_calls (snd (start_capture c s)) = Suc (calibration_calls s) \<and>
   intrinsics (calib s) = [] \<and> fst (start_capture c s) = Inr () \<and>
   open_subdevices (snd (start_capture c s)) \<noteq> []"
proof (cases "first_handle s = None")
  case False
  then show ?thesis by (auto simp: start_capture_def set_streaming_def)
next
  case True
  obtain r s1 where e: "configure_enabled_streams c s = (r, s1)"
    by (cases "configure_enabled_streams c s")
  show ?thesis
  proof (cases r)
    case (Inl err)
    with True e configure_fetch [of c s] show ?thesis
      by (auto simp: start_capture_def)
  next
    case (Inr u)
    with True e have "snd (start_capture c s) = (set_streaming True s1)\<lparr>is_capturing := True\<rparr>"
      "fst (start_capture c s) = Inr ()"
      by (simp_all add: start_capture_def)
    moreover have "calibration_calls ((set_streaming True s1)\<lparr>is_capturing := True\<rparr>) = calibration_calls s1"
      by (simp add: set_streaming_def)
    ultimately show ?thesis
      using True e configure_fetch [of c s] by (auto simp: open_subdevices_set_streaming)
  qed
qed

text \<open>
  C6, as the code has it. From a new session, whatever the calls and frame arrivals, and
  provided the calibration that \<open>retrieve_calibration\<close> returns has an intrinsics entry:
  \<open>retrieve_calibration\<close> has been called at most once; as long as it has not been
  called, the stored calibration is empty; once it was called, neither
  \<open>configure_enabled_streams\<close> nor \<open>start_capture\<close> calls it again; a
  \<open>configure_enabled_streams\<close> that returns with a subdevice open leaves it called
  exactly once. A \<open>configure_enabled_streams\<close> or \<open>start_capture\<close> that calls it
  finds the stored calibration empty, calls it for the first time and returns normally.
  \<open>start_capture\<close> calls it only with a subdevice open, and so does
  \<open>configure_enabled_streams\<close> when no first handle was recorded before the call.
\<close>

theorem calibration_at_most_once:
  assumes ne: "intrinsics (retrieve_calibration c) \<noteq> []"
    and run: "run_ops c ops (rs_camera_new n info) = Some s"
  shows "calibration_calls s \<le> 1 \<and>
         (calibration_calls s = 0 \<longrightarrow> intrinsics (calib s) = []) \<and>
         (calibration_calls s = 1 \<longrightarrow>
            calibration_calls (snd (configure_enabled_streams c s)) = 1 \<and>
            calibration_calls (snd (start_capture c s)) = 1) \<and>
         (fst (configure_enabled_streams c s) = Inr () \<and>
          open_subdevices (snd (configure_enabled_streams c s)) \<noteq> [] \<longrightarrow>
            calibration_calls (snd (configure_enabled_streams c s)) = 1) \<and>
         (calibration_calls (snd (configure_enabled_streams c s)) \<noteq> calibration_calls s \<longrightarrow>
            calibration_calls s = 0 \<and> intrinsics (calib s) = [] \<and>
            calibration_calls (snd (configure_enabled_streams c s)) = 1 \<and>
            fst (configure_enabled_streams c s) = Inr ()) \<and>
         (first_handle s = None \<and>
          calibration_calls (snd (configure_enabled_streams c s)) \<noteq> calibration_calls s \<longrightarrow>
            open_subdevices (snd (configure_enabled_streams c s)) \<noteq> []) \<and>
         (calibration_calls (snd (start_capture c s)) \<noteq> calibration_calls s \<longrightarrow>
            calibration_calls s = 0 \<and> intrinsics (calib s) = [] \<and>
            calibration_calls (snd (start_capture c s)) = 1 \<and>
            fst (start_capture c s) = Inr () \<and>
            open_subdevices (snd (start_capture c s)) \<noteq> [])"
proof -
  have inv: "calibration_inv c s"
    by (rule run_ops_calibration_inv [OF ne new_calibration_inv run])
  have a: "calibration_calls s \<le> 1" "calibration_calls s = 0 \<longrightarrow> intrinsics (calib s) = []"
    using inv by (simp_all add: calibration_inv_def)
  have full: "intrinsics (calib s) = [] \<longrightarrow> calibration_calls s = 0"
    using inv ne by (auto simp: calibration_inv_def)
  have d: "calibration_calls s = 1 \<longrightarrow>
            calibration_calls (snd (configure_enabled_streams c s)) = 1 \<and>
            calibration_calls (snd (start_capture c s)) = 1"
  proof
    assume one: "calibration_calls s = 1"
    with inv ne have "intrinsics (calib s) \<noteq> []"
      by (simp add: calibration_inv_def)
    from configure_no_refetch [OF this] start_capture_no_refetch [OF this] one
    show "calibration_calls (snd (configure_enabled_streams c s)) = 1 \<and>
            calibration_calls (snd (start_capture c s)) = 1"
      by simp
  qed
  have b: "fst (configure_enabled_streams c s) = Inr () \<and>
          open_subdevices (snd (configure_enabled_streams c s)) \<noteq> [] \<longrightarrow>
            calibration_calls (snd (configure_enabled_streams c s)) = 1"
  proof
    assume h: "fst (configure_enabled_streams c s) = Inr () \<and>
          open_subdevices (snd (configure_enabled_streams c s)) \<noteq> []"
    then have "\<exists>h \<in> set (subdevices (snd (configure_enabled_streams c s))). h \<noteq> None"
      by (intro open_subdevices_nonempty) simp
    with configure_handle_recorded [of c s]
    have "first_handle (snd (configure_enabled_streams c s)) \<noteq> None"
      by (simp add: handle_recorded_def)
    with h configure_fetches_when_open [OF ne inv]
    show "calibration_calls (snd (configure_enabled_streams c s)) = 1" by blast
  qed
  have e: "calibration_calls (snd (configure_enabled_streams c s)) \<noteq> calibration_calls s \<longrightarrow>
            calibration_calls s = 0 \<and> intrinsics (calib s) = [] \<and>
            calibration_calls (snd (configure_enabled_streams c s)) = 1 \<and>
            fst (configure_enabled_streams c s) = Inr ()"
    using configure_fetch [of c s] full by auto
  have f: "first_handle s = None \<and>
          calibration_calls (snd (configure_enabled_streams c s)) \<noteq> calibration_calls s \<longrightarrow>
            open_subdevices (snd (configure_enabled_streams c s)) \<noteq> []"
    using configure_fetch [of c s] by auto
  have g: "calibration_calls (snd (start_capture c s)) \<noteq> calibration_calls s \<longrightarrow>
            calibration_calls s = 0 \<and> intrinsics (calib s) = [] \<and>
            calibration_calls (snd (start_capture c s)) = 1 \<and>
            fst (start_capture c s) = Inr () \<and>
            open_subdevices (snd (start_capture c s)) \<noteq> []"
    using start_capture_fetch [of c s] full by auto
  from a d b e f g show ?thesis by blast
qed

theorem calibration_at_most_once_witness:
  "intrinsics (retrieve_calibration example_camera) \<noteq> [] \<and>
   run_ops example_camera [Enable_stream 1 640 480 1 30, Enable_stream 0 640 480 2 30]
     (rs_camera_new 3 example_info) = Some both_requested \<and>
   run_ops example_camera
     [Enable_stream 1 640 480 1 30, Enable_stream 0 640 480 2 30, Configure_enabled_streams]
     (rs_camera_new 3 example_info) = Some (snd (configure_enabled_streams example_camera both_requested)) \<and>
   first_handle both_requested = None \<and>
   calibration_calls both_requested = 0 \<and>
   intrinsics (calib both_requested) = [] \<and>
   fst (configure_enabled_streams example_camera both_requested) = Inr () \<and>
   open_subdevices (snd (configure_enabled_streams example_camera both_requested)) = [0, 1] \<and>
   calibration_calls (snd (configure_enabled_streams example_camera both_requested)) = 1 \<and>
   calibration_calls (snd (configure_enabled_streams example_camera
     (snd (configure_enabled_streams example_camera both_requested)))) = 1 \<and>
   calibration_calls (snd (start_capture example_camera
     (snd (configure_enabled_streams example_camera both_requested)))) = 1 \<and>
   fst (start_capture example_camera both_requested) = Inr () \<and>
   calibration_calls (snd (start_capture example_camera both_requested)) = 1 \<and>
   open_subdevices (snd (start_capture example_camera both_requested)) = [0, 1]"
proof -
  let ?s = "snd (configure_enabled_streams example_camera both_requested)"
  have ne: "intrinsics (retrieve_calibration example_camera) \<noteq> []"
    by (simp add: example_camera_def)
  have run1: "run_ops example_camera [Enable_stream 1 640 480 1 30, Enable_stream 0 640 480 2 30]
     (rs_camera_new 3 example_info) = Some both_requested"
    by (simp add: both_requested_def fresh_session_def)
  have run2: "run_ops example_camera
     [Enable_stream 1 640 480 1 30, Enable_stream 0 640 480 2 30, Configure_enabled_streams]
     (rs_camera_new 3 example_info) = Some ?s"
    by (simp add: both_requested_def fresh_session_def)
  have fh: "first_handle both_requested = None" and z: "calibration_calls both_requested = 0"
    by (simp_all add: example_defs)
  from configured_example have ok: "fst (configure_enabled_streams example_camera both_requested) = Inr ()"
    and op: "open_subdevices ?s = [0, 1]"
    by simp_all
  have sc: "open_subdevices (snd (start_capture example_camera both_requested)) = [0, 1]"
    by (simp add: example_defs)
  note t1 = calibration_at_most_once [OF ne run1]
  note t2 = calibration_at_most_once [OF ne run2]
  note e0 = mp [OF t1 [THEN conjunct2, THEN conjunct1] z]
  from ok op have "fst (configure_enabled_streams example_camera both_requested) = Inr () \<and>
      open_subdevices ?s \<noteq> []"
    by simp
  note one = mp [OF t1 [THEN conjunct2, THEN conjunct2, THEN conjunct2, THEN conjunct1] this]
  from one z have ch: "calibration_calls ?s \<noteq> calibration_calls both_requested"
    by simp
  note f = mp [OF t1 [THEN conjunct2, THEN conjunct2, THEN conjunct2, THEN conjunct2, THEN conjunct2,
      THEN conjunct1] conjI [OF fh ch]]
  note again = mp [OF t2 [THEN conjunct2, THEN conjunct2, THEN conjunct1] one]
  have "calibration_calls (snd (start_capture example_camera both_requested)) \<noteq>
      calibration_calls both_requested"
    by (simp add: example_defs)
  note g = mp [OF t1 [THEN conjunct2, THEN conjunct2, THEN conjunct2, THEN conjunct2, THEN conjunct2,
      THEN conjunct2] this]
  from g have g1: "fst (start_capture example_camera both_requested) = Inr ()"
    "calibration_calls (snd (start_capture example_camera both_requested)) = 1"
    by blast+
  from again have a1: "calibration_calls (snd (configure_enabled_streams example_camera ?s)) = 1"
    "calibration_calls (snd (start_capture example_camera ?s)) = 1"
    by blast+
  from ne run1 run2 fh z e0 ok op one a1 g1 sc show ?thesis
    by blast
qed

text \<open>
  C6 as stated fails, in part by design and in part not. By design, the fetch is lazy:
  a sequence that never configures does not call \<open>retrieve_calibration\<close>. The other
  part comes from the resets at lines 44 and 45, which are outside the guard of line 49:
  \<open>configure_enabled_streams\<close> called with a first handle recorded and the stored
  calibration still empty closes every subdevice, opens none, and then fetches, although
  the comment at line 84 asks for an open subdevice. In the example: a first call that
  throws on the depth request after opening subdevice 0, then a second call, which fetches
  with no subdevice open; and when the calibration returned has no intrinsics entry,
  every further call fetches again. The statement above says nothing about such a call.
\<close>

theorem calibration_not_exactly_once:
  "run_ops example_camera [Enable_stream 1 640 480 1 30, Stop_capture] fresh_session \<noteq> None \<and>
   calibration_calls (the (run_ops example_camera [Enable_stream 1 640 480 1 30, Stop_capture] fresh_session)) = 0 \<and>
   fst (configure_enabled_streams example_camera unsupported_depth) =
     Inl (runtime_error ''no mode satisfies the requested streams'') \<and>
   open_subdevices (snd (configure_enabled_streams example_camera unsupported_depth)) = [0] \<and>
   first_handle (snd (configure_enabled_streams example_camera unsupported_depth)) = Some 0 \<and>
   calibration_calls (snd (configure_enabled_streams example_camera unsupported_depth)) = 0 \<and>
   fst (configure_enabled_streams example_camera
          (snd (configure_enabled_streams example_camera unsupported_depth))) = Inr () \<and>
   open_subdevices (snd (configure_enabled_streams example_camera
          (snd (configure_enabled_streams example_camera unsupported_depth)))) = [] \<and>
   calibration_calls (snd (configure_enabled_streams example_camera
          (snd (configure_enabled_streams example_camera unsupported_depth)))) = 1 \<and>
   calibration_calls (the (run_ops (example_camera\<lparr>retrieve_calibration := \<lparr>intrinsics = []\<rparr>\<rparr>)
      [Enable_stream 1 640 480 1 30, Configure_enabled_streams, Configure_enabled_streams] fresh_session)) = 2"
  by (simp add: example_defs)

section \<open>Stream slots after configure_enabled_streams, and intrinsics\<close>

lemma make_stream_buffers_populates:
  "make_stream_buffers sms l s = (l', s') \<Longrightarrow>
     (\<forall>st < length (streams s). streams s ! st \<noteq> None \<longrightarrow> streams s' ! st \<noteq> None) \<and>
     (\<forall>sm \<in> set sms. stream sm < length (streams s) \<and> enabled (requests s ! stream sm) \<longrightarrow>
        streams s' ! stream sm \<noteq> None)"
proof (induction sms arbitrary: l s)
  case Nil
  then show ?case by simp
next
  case (Cons sm sms)
  let ?n = "length (store s)"
  let ?s1 = "s\<lparr>store := store s @ [new_stream_buffer]\<rparr>"
  let ?s2 = "if enabled (requests ?s1 ! stream sm)
             then ?s1\<lparr>streams := (streams ?s1)[stream sm := Some ?n]\<rparr> else ?s1"
  from Cons.prems have m: "make_stream_buffers sms (l @ [?n]) ?s2 = (l', s')"
    by (simp add: Let_def)
  note ih = Cons.IH [OF m]
  have eq: "length (streams ?s2) = length (streams s)" "requests ?s2 = requests s"
    by simp_all
  have keep: "streams ?s2 ! st \<noteq> None" if "st < length (streams s)" "streams s ! st \<noteq> None" for st
    using that by (cases "st = stream sm") auto
  have here: "streams ?s2 ! stream sm \<noteq> None"
    if "stream sm < length (streams s)" "enabled (requests s ! stream sm)"
    using that by simp
  have a: "streams s' ! st \<noteq> None" if "st < length (streams s)" "streams s ! st \<noteq> None" for st
    using ih keep [OF that] that(1) eq by simp
  have b: "streams s' ! stream x \<noteq> None"
    if x: "x \<in> set (sm # sms)" "stream x < length (streams s)" "enabled (requests s ! stream x)" for x
  proof (cases "x = sm")
    case True
    with here x have "streams ?s2 ! stream sm \<noteq> None" by simp
    with ih x(2) True eq show ?thesis by simp
  next
    case False
    with x have "x \<in> set sms" by simp
    with ih x(2,3) eq show ?thesis by simp
  qed
  from a b show ?case by blast
qed

lemma open_subdevice_populates:
  "(\<forall>st < length (streams s). streams s ! st \<noteq> None \<longrightarrow> streams (open_subdevice c i m s) ! st \<noteq> None) \<and>
   (\<forall>sm \<in> set (mode_streams m). stream sm < length (streams s) \<and> enabled (requests s ! stream sm) \<longrightarrow>
      streams (open_subdevice c i m s) ! stream sm \<noteq> None)"
proof -
  let ?h = "\<lparr>handle = i, state = None, streaming = False\<rparr>"
  let ?s0 = "s\<lparr>subdevices := (subdevices s)[i := Some ?h]\<rparr>"
  let ?s1 = "if first_handle ?s0 = None then ?s0\<lparr>first_handle := Some (handle ?h)\<rparr> else ?s0"
  obtain l s2 where mk: "make_stream_buffers (mode_streams m) [] ?s1 = (l, s2)"
    by (cases "make_stream_buffers (mode_streams m) [] ?s1")
  have s1: "streams ?s1 = streams s" "requests ?s1 = requests s"
    by simp_all
  from mk have t: "streams (open_subdevice c i m s) = streams s2"
    by (simp add: open_subdevice_def subdevice_set_mode_def Let_def)
  from make_stream_buffers_populates [OF mk] show ?thesis
    unfolding t s1 by blast
qed

lemma configure_subdevices_keeps_buffers:
  "st < length (streams s) \<Longrightarrow> streams s ! st \<noteq> None \<Longrightarrow>
   streams (snd (configure_subdevices c js s)) ! st \<noteq> None"
proof (induction js arbitrary: s)
  case Nil
  then show ?case by simp
next
  case (Cons i js)
  show ?case
  proof (cases "select_mode c (camera_info s) (requests s) i")
    case (Inl e)
    with Cons.prems show ?thesis by simp
  next
    case (Inr r)
    show ?thesis
    proof (cases r)
      case None
      with Inr Cons show ?thesis by simp
    next
      case (Some m)
      let ?t = "open_subdevice c i m s"
      from open_subdevice_fields [of c i m s] Cons.prems(1)
      have len: "st < length (streams ?t)" by simp
      from open_subdevice_populates [of s c i m] Cons.prems
      have "streams ?t ! st \<noteq> None" by blast
      from Cons.IH [OF len this] Inr Some show ?thesis by simp
    qed
  qed
qed

lemma configure_subdevices_populates:
  assumes "fst (configure_subdevices c js s) = Inr ()"
    and "i \<in> set js"
    and "select_mode c (camera_info s) (requests s) i = Inr (Some m)"
    and "sm \<in> set (mode_streams m)"
    and "stream sm < length (streams s)"
    and "enabled (requests s ! stream sm)"
  shows "streams (snd (configure_subdevices c js s)) ! stream sm \<noteq> None"
  using assms
proof (induction js arbitrary: s)
  case Nil
  then show ?case by simp
next
  case (Cons j js)
  show ?case
  proof (cases "select_mode c (camera_info s) (requests s) j")
    case (Inl e)
    with Cons.prems(1) show ?thesis by simp
  next
    case (Inr r)
    let ?t = "case r of None \<Rightarrow> s | Some m' \<Rightarrow> open_subdevice c j m' s"
    have step: "configure_subdevices c (j # js) s = configure_subdevices c js ?t"
      using Inr by (cases r) simp_all
    have eq: "camera_info ?t = camera_info s" "requests ?t = requests s"
      "length (streams ?t) = length (streams s)"
      using open_subdevice_fields [of c j _ s] by (cases r; simp)+
    show ?thesis
    proof (cases "i = j")
      case True
      with Inr Cons.prems(3) have r: "r = Some m" by simp
      from open_subdevice_populates [of s c j m] Cons.prems(4,5,6)
      have "streams (open_subdevice c j m s) ! stream sm \<noteq> None" by blast
      with r have p: "streams ?t ! stream sm \<noteq> None" by simp
      from Cons.prems(5) eq have "stream sm < length (streams ?t)" by simp
      from configure_subdevices_keeps_buffers [OF this p, of c js] step
      show ?thesis by simp
    next
      case False
      with Cons.prems(2) have i: "i \<in> set js" by simp
      from Cons.prems(1) step have ok: "fst (configure_subdevices c js ?t) = Inr ()" by simp
      from Cons.IH [OF ok i] Cons.prems(3,4,5,6) eq step
      show ?thesis by simp
    qed
  qed
qed

lemma configure_subdevices_opens:
  assumes "fst (configure_subdevices c js s) = Inr ()"
    and "i \<in> set js"
    and "select_mode c (camera_info s) (requests s) i = Inr (Some m)"
  shows "first_handle (snd (configure_subdevices c js s)) \<noteq> None"
  using assms
proof (induction js arbitrary: s)
  case Nil
  then show ?case by simp
next
  case (Cons j js)
  show ?case
  proof (cases "select_mode c (camera_info s) (requests s) j")
    case (Inl e)
    with Cons.prems(1) show ?thesis by simp
  next
    case (Inr r)
    let ?t = "case r of None \<Rightarrow> s | Some m' \<Rightarrow> open_subdevice c j m' s"
    have step: "configure_subdevices c (j # js) s = configure_subdevices c js ?t"
      using Inr by (cases r) simp_all
    have eq: "camera_info ?t = camera_info s" "requests ?t = requests s"
      using open_subdevice_fields [of c j _ s] by (cases r; simp)+
    show ?thesis
    proof (cases "i = j")
      case True
      with Inr Cons.prems(3) have "r = Some m" by simp
      then have "first_handle ?t \<noteq> None"
        by (simp add: open_subdevice_first_handle)
      from configure_subdevices_first_handle [OF this, of c js] step show ?thesis by simp
    next
      case False
      with Cons.prems(2) have i: "i \<in> set js" by simp
      from Cons.prems(1) step have ok: "fst (configure_subdevices c js ?t) = Inr ()" by simp
      from Cons.IH [OF ok i] Cons.prems(3) eq step show ?thesis by simp
    qed
  qed
qed

lemma configure_returns:
  assumes fh: "first_handle s = None" and ok: "fst (configure_enabled_streams c s) = Inr ()"
  shows "\<exists>rs. enforce_interstream_constraints c (requests s) = Inr rs \<and>
           fst (configure_subdevices c [0..<length (subdevices s)] ((reset_all s)\<lparr>requests := rs\<rparr>)) = Inr () \<and>
           snd (configure_enabled_streams c s) =
             fetch_calibration c
               (snd (configure_subdevices c [0..<length (subdevices s)] ((reset_all s)\<lparr>requests := rs\<rparr>)))"
proof (cases "enforce_interstream_constraints c (requests s)")
  case (Inl e)
  with fh ok show ?thesis
    by (simp add: configure_enabled_streams_def open_requested_subdevices_def reset_all_def)
next
  case (Inr rs)
  let ?t = "(reset_all s)\<lparr>requests := rs\<rparr>"
  let ?n = "length (subdevices s)"
  from fh Inr have o: "open_requested_subdevices c (reset_all s) = configure_subdevices c [0..<?n] ?t"
    by (simp add: open_requested_subdevices_def reset_all_def)
  obtain r u where cs: "configure_subdevices c [0..<?n] ?t = (r, u)"
    by (cases "configure_subdevices c [0..<?n] ?t")
  from ok o cs have r: "r = Inr ()"
    by (cases r) (simp_all add: configure_enabled_streams_def)
  with o cs Inr show ?thesis
    by (simp add: configure_enabled_streams_def)
qed

lemma configured_stream_has_buffer:
  assumes fh: "first_handle s = None" and cal: "intrinsics (calib s) = []"
    and ok: "fst (configure_enabled_streams c s) = Inr ()"
    and st: "st < length (streams s)"
    and en: "enabled (requests (snd (configure_enabled_streams c s)) ! st)"
    and i: "i < length (subdevices s)"
    and sel: "select_mode c (camera_info s) (requests (snd (configure_enabled_streams c s))) i = Inr (Some m)"
    and sm: "sm \<in> set (mode_streams m)" "stream sm = st"
  shows "streams (snd (configure_enabled_streams c s)) ! st \<noteq> None \<and>
         calib (snd (configure_enabled_streams c s)) = retrieve_calibration c"
proof -
  let ?n = "length (subdevices s)"
  from configure_returns [OF fh ok] obtain rs where
    enf: "enforce_interstream_constraints c (requests s) = Inr rs"
    and lo: "fst (configure_subdevices c [0..<?n] ((reset_all s)\<lparr>requests := rs\<rparr>)) = Inr ()"
    and res: "snd (configure_enabled_streams c s) =
             fetch_calibration c (snd (configure_subdevices c [0..<?n] ((reset_all s)\<lparr>requests := rs\<rparr>)))"
    by blast
  let ?t = "(reset_all s)\<lparr>requests := rs\<rparr>"
  let ?u = "snd (configure_subdevices c [0..<?n] ?t)"
  have t: "camera_info ?t = camera_info s" "requests ?t = rs" "length (streams ?t) = length (streams s)"
    "calib ?t = calib s"
    by (simp_all add: reset_all_def)
  from configure_subdevices_fields [of c "[0..<?n]" ?t] t
  have u: "requests ?u = rs" "calib ?u = calib s" by simp_all
  from res u have rq: "requests (snd (configure_enabled_streams c s)) = rs"
    by (simp add: fetch_calibration_def)
  from i have iin: "i \<in> set [0..<?n]" by simp
  from sel rq t have sel': "select_mode c (camera_info ?t) (requests ?t) i = Inr (Some m)"
    by simp
  from st sm t have stt: "stream sm < length (streams ?t)" by simp
  from en rq sm t have ent: "enabled (requests ?t ! stream sm)" by simp
  from configure_subdevices_populates [OF lo iin sel' sm(1) stt ent] sm(2)
  have p: "streams ?u ! st \<noteq> None" by simp
  from configure_subdevices_opens [OF lo iin sel']
  have f: "first_handle ?u \<noteq> None" .
  from f cal u have "fetch_calibration c ?u =
      ?u\<lparr>calib := retrieve_calibration c, calibration_calls := Suc (calibration_calls ?u)\<rparr>"
    by (simp add: fetch_calibration_def)
  with res p show ?thesis by simp
qed

text \<open>
  C8, as the code has it. \<open>get_stream_intrinsics\<close> throws
  \<open>std::runtime_error("stream not enabled")\<close> (the spec's StateError) when the stream's
  slot holds no buffer: so for every stream of a new session, and after
  \<open>configure_enabled_streams\<close> for every stream whose request is not enabled. When the
  slot holds a buffer, it returns the stored calibration's intrinsics entry at the
  \<open>intrinsics_index\<close> of that buffer's mode, provided the index lies within the
  intrinsics vector. After \<open>configure_enabled_streams\<close>, the mode of the buffer in a
  stream's slot is a negotiated one: the stream is requested, and the mode is a mode of
  that stream in the subdevice mode selected for some subdevice. When
  \<open>configure_enabled_streams\<close> is called with no first handle recorded and an empty
  stored calibration, and returns normally, then every enabled stream that has a stream
  mode in the mode selected for one of the subdevices has a buffer in its slot, the stored
  calibration is the one \<open>retrieve_calibration\<close> returned, and
  \<open>get_stream_intrinsics\<close> returns its entry at the \<open>intrinsics_index\<close> of the
  negotiated mode, when it has an entry there.
\<close>

theorem get_stream_intrinsics_contract:
  "(streams (s :: 'i rs_camera) ! st = None \<longrightarrow>
      get_stream_intrinsics s st = Throws (runtime_error ''stream not enabled'')) \<and>
   (st < n \<longrightarrow>
      get_stream_intrinsics (rs_camera_new n info :: 'i rs_camera) st =
        Throws (runtime_error ''stream not enabled'')) \<and>
   (\<forall>a. streams s ! st = Some a \<and> 0 \<le> intrinsics_index (mode (store s ! a)) \<and>
        nat (intrinsics_index (mode (store s ! a))) < length (intrinsics (calib s)) \<longrightarrow>
      get_stream_intrinsics s st =
        Returns (intrinsics (calib s) ! nat (intrinsics_index (mode (store s ! a))))) \<and>
   (\<forall>a. st < length (streams (snd (configure_enabled_streams c s))) \<and>
        streams (snd (configure_enabled_streams c s)) ! st = Some a \<longrightarrow>
      a < length (store (snd (configure_enabled_streams c s))) \<and>
      negotiated c (snd (configure_enabled_streams c s)) st
        (mode (store (snd (configure_enabled_streams c s)) ! a))) \<and>
   (st < length (streams s) \<and> \<not> enabled (requests (snd (configure_enabled_streams c s)) ! st) \<longrightarrow>
      get_stream_intrinsics (snd (configure_enabled_streams c s)) st =
        Throws (runtime_error ''stream not enabled'')) \<and>
   (first_handle s = None \<and> intrinsics (calib s) = [] \<and>
    fst (configure_enabled_streams c s) = Inr () \<and>
    st < length (streams s) \<and> enabled (requests (snd (configure_enabled_streams c s)) ! st) \<and>
    i < length (subdevices s) \<and>
    select_mode c (camera_info s) (requests (snd (configure_enabled_streams c s))) i = Inr (Some m) \<and>
    sm \<in> set (mode_streams m) \<and> stream sm = st \<longrightarrow>
      (\<exists>a. streams (snd (configure_enabled_streams c s)) ! st = Some a \<and>
           a < length (store (snd (configure_enabled_streams c s))) \<and>
           negotiated c (snd (configure_enabled_streams c s)) st
             (mode (store (snd (configure_enabled_streams c s)) ! a)) \<and>
           calib (snd (configure_enabled_streams c s)) = retrieve_calibration c \<and>
           (0 \<le> intrinsics_index (mode (store (snd (configure_enabled_streams c s)) ! a)) \<and>
            nat (intrinsics_index (mode (store (snd (configure_enabled_streams c s)) ! a))) <
              length (intrinsics (retrieve_calibration c)) \<longrightarrow>
              get_stream_intrinsics (snd (configure_enabled_streams c s)) st =
                Returns (intrinsics (retrieve_calibration c) !
                  nat (intrinsics_index (mode (store (snd (configure_enabled_streams c s)) ! a)))))))"
proof -
  let ?s' = "snd (configure_enabled_streams c s)"
  have c1: "streams s ! st = None \<longrightarrow>
      get_stream_intrinsics s st = Throws (runtime_error ''stream not enabled'')"
    by (simp add: get_stream_intrinsics_def)
  have c2: "st < n \<longrightarrow>
      get_stream_intrinsics (rs_camera_new n info :: 'i rs_camera) st =
        Throws (runtime_error ''stream not enabled'')"
    by (simp add: get_stream_intrinsics_def rs_camera_new_def)
  have c3: "\<forall>a. streams s ! st = Some a \<and> 0 \<le> intrinsics_index (mode (store s ! a)) \<and>
        nat (intrinsics_index (mode (store s ! a))) < length (intrinsics (calib s)) \<longrightarrow>
      get_stream_intrinsics s st =
        Returns (intrinsics (calib s) ! nat (intrinsics_index (mode (store s ! a))))"
    by (simp add: get_stream_intrinsics_def)
  have c4: "\<forall>a. st < length (streams ?s') \<and> streams ?s' ! st = Some a \<longrightarrow>
      a < length (store ?s') \<and> negotiated c ?s' st (mode (store ?s' ! a))"
    using configure_buffers_negotiated [of c s] unfolding buffers_hold_def by blast
  have len: "length (streams ?s') = length (streams s)"
    using configure_lengths [of c s] by simp
  have c5: "st < length (streams s) \<and> \<not> enabled (requests ?s' ! st) \<longrightarrow>
      get_stream_intrinsics ?s' st = Throws (runtime_error ''stream not enabled'')"
  proof
    assume a: "st < length (streams s) \<and> \<not> enabled (requests ?s' ! st)"
    have "streams ?s' ! st = None"
    proof (cases "streams ?s' ! st")
      case None
      then show ?thesis .
    next
      case (Some b)
      with a len c4 have "negotiated c ?s' st (mode (store ?s' ! b))" by simp
      with a show ?thesis by (simp add: negotiated_def)
    qed
    then show "get_stream_intrinsics ?s' st = Throws (runtime_error ''stream not enabled'')"
      by (simp add: get_stream_intrinsics_def)
  qed
  have c6: "first_handle s = None \<and> intrinsics (calib s) = [] \<and>
    fst (configure_enabled_streams c s) = Inr () \<and>
    st < length (streams s) \<and> enabled (requests ?s' ! st) \<and>
    i < length (subdevices s) \<and>
    select_mode c (camera_info s) (requests ?s') i = Inr (Some m) \<and>
    sm \<in> set (mode_streams m) \<and> stream sm = st \<longrightarrow>
      (\<exists>a. streams ?s' ! st = Some a \<and> a < length (store ?s') \<and>
           negotiated c ?s' st (mode (store ?s' ! a)) \<and>
           calib ?s' = retrieve_calibration c \<and>
           (0 \<le> intrinsics_index (mode (store ?s' ! a)) \<and>
            nat (intrinsics_index (mode (store ?s' ! a))) < length (intrinsics (retrieve_calibration c)) \<longrightarrow>
              get_stream_intrinsics ?s' st =
                Returns (intrinsics (retrieve_calibration c) ! nat (intrinsics_index (mode (store ?s' ! a))))))"
  proof
    assume a: "first_handle s = None \<and> intrinsics (calib s) = [] \<and>
      fst (configure_enabled_streams c s) = Inr () \<and>
      st < length (streams s) \<and> enabled (requests ?s' ! st) \<and>
      i < length (subdevices s) \<and>
      select_mode c (camera_info s) (requests ?s') i = Inr (Some m) \<and>
      sm \<in> set (mode_streams m) \<and> stream sm = st"
    then have fh: "first_handle s = None" and cal: "intrinsics (calib s) = []"
      and ok: "fst (configure_enabled_streams c s) = Inr ()"
      and st: "st < length (streams s)" and en: "enabled (requests ?s' ! st)"
      and i: "i < length (subdevices s)"
      and sel: "select_mode c (camera_info s) (requests ?s') i = Inr (Some m)"
      and sm: "sm \<in> set (mode_streams m)" "stream sm = st"
      by simp_all
    from configured_stream_has_buffer [OF fh cal ok st en i sel sm]
    obtain a where slot: "streams ?s' ! st = Some a" and cb: "calib ?s' = retrieve_calibration c"
      by auto
    from c4 st len slot have n: "a < length (store ?s')" "negotiated c ?s' st (mode (store ?s' ! a))"
      by simp_all
    have "0 \<le> intrinsics_index (mode (store ?s' ! a)) \<and>
            nat (intrinsics_index (mode (store ?s' ! a))) < length (intrinsics (retrieve_calibration c)) \<longrightarrow>
              get_stream_intrinsics ?s' st =
                Returns (intrinsics (retrieve_calibration c) ! nat (intrinsics_index (mode (store ?s' ! a))))"
      using slot cb by (simp add: get_stream_intrinsics_def)
    with slot cb n show "\<exists>a. streams ?s' ! st = Some a \<and> a < length (store ?s') \<and>
           negotiated c ?s' st (mode (store ?s' ! a)) \<and>
           calib ?s' = retrieve_calibration c \<and>
           (0 \<le> intrinsics_index (mode (store ?s' ! a)) \<and>
            nat (intrinsics_index (mode (store ?s' ! a))) < length (intrinsics (retrieve_calibration c)) \<longrightarrow>
              get_stream_intrinsics ?s' st =
                Returns (intrinsics (retrieve_calibration c) ! nat (intrinsics_index (mode (store ?s' ! a)))))"
      by blast
  qed
  from c1 c2 c3 c4 c5 c6 show ?thesis by blast
qed

theorem get_stream_intrinsics_contract_witness:
  "first_handle both_requested = None \<and>
   intrinsics (calib both_requested) = [] \<and>
   fst (configure_enabled_streams example_camera both_requested) = Inr () \<and>
   enabled (requests (snd (configure_enabled_streams example_camera both_requested)) ! 1) \<and>
   select_mode example_camera (camera_info both_requested)
     (requests (snd (configure_enabled_streams example_camera both_requested))) 0 = Inr (Some color_mode) \<and>
   streams (snd (configure_enabled_streams example_camera both_requested)) ! 1 = Some 0 \<and>
   get_stream_intrinsics (snd (configure_enabled_streams example_camera both_requested)) 1 = Returns 10 \<and>
   negotiated example_camera (snd (configure_enabled_streams example_camera both_requested)) 1
     (mode (store (snd (configure_enabled_streams example_camera both_requested)) ! 0)) \<and>
   streams (snd (configure_enabled_streams example_camera both_requested)) ! 0 = Some 1 \<and>
   get_stream_intrinsics (snd (configure_enabled_streams example_camera both_requested)) 0 = Returns 20 \<and>
   \<not> enabled (requests (snd (configure_enabled_streams example_camera both_requested)) ! 2) \<and>
   get_stream_intrinsics (snd (configure_enabled_streams example_camera both_requested)) 2 =
     Throws (runtime_error ''stream not enabled'') \<and>
   get_stream_intrinsics (rs_camera_new 3 example_info :: nat rs_camera) 1 =
     Throws (runtime_error ''stream not enabled'')"
proof -
  let ?s = "snd (configure_enabled_streams example_camera both_requested)"
  let ?cm = "\<lparr>stream = 1, width = 640, height = 480, format = 1, fps = 30, intrinsics_index = 0\<rparr>"
  from configured_example have ok: "fst (configure_enabled_streams example_camera both_requested) = Inr ()"
    and st: "streams ?s = [Some 1, Some 0, None]"
    and m: "map (intrinsics_index \<circ> mode) (store ?s) = [0, 1]"
    by simp_all
  have rc: "retrieve_calibration example_camera = \<lparr>intrinsics = [10, 20]\<rparr>"
    by (simp add: example_camera_def)
  from m have len: "length (store ?s) = 2"
    by (metis length_map length_Cons list.size(3) One_nat_def Suc_1)
  from m len have k: "intrinsics_index (mode (store ?s ! 0)) = 0" "intrinsics_index (mode (store ?s ! 1)) = 1"
    by (metis comp_apply nth_map nth_Cons_0 zero_less_numeral,
        metis comp_apply nth_map nth_Cons_0 nth_Cons_Suc One_nat_def one_less_numeral_iff semiring_norm(76))
  have fh: "first_handle both_requested = None" and cal: "intrinsics (calib both_requested) = []"
    and ls: "length (streams both_requested) = 3" and ld: "length (subdevices both_requested) = 2"
    by (simp_all add: example_defs)
  have rq: "requests ?s = requests both_requested"
    by (simp add: example_defs)
  have en: "enabled (requests ?s ! 1)" "enabled (requests ?s ! 0)" "\<not> enabled (requests ?s ! 2)"
    unfolding rq by (simp_all add: example_defs)
  have sel: "select_mode example_camera (camera_info both_requested) (requests ?s) 0 = Inr (Some color_mode)"
    "select_mode example_camera (camera_info both_requested) (requests ?s) 1 = Inr (Some depth_mode)"
    unfolding rq by (simp_all add: example_defs)
  have cm: "?cm \<in> set (mode_streams color_mode)" "stream ?cm = 1"
    by (simp_all add: color_mode_def)
  let ?dm = "\<lparr>stream = 0, width = 640, height = 480, format = 2, fps = 30, intrinsics_index = 1\<rparr>"
  have dm: "?dm \<in> set (mode_streams depth_mode)" "stream ?dm = 0"
    by (simp_all add: depth_mode_def)
  note t1 = get_stream_intrinsics_contract [where s = both_requested and st = 1 and n = 3
      and info = example_info and c = example_camera and i = 0 and m = color_mode and sm = ?cm]
  have p1: "first_handle both_requested = None \<and> intrinsics (calib both_requested) = [] \<and>
    fst (configure_enabled_streams example_camera both_requested) = Inr () \<and>
    1 < length (streams both_requested) \<and> enabled (requests ?s ! 1) \<and>
    0 < length (subdevices both_requested) \<and>
    select_mode example_camera (camera_info both_requested) (requests ?s) 0 = Inr (Some color_mode) \<and>
    ?cm \<in> set (mode_streams color_mode) \<and> stream ?cm = 1"
    using fh cal ok ls ld en(1) sel(1) cm by simp
  note r1 = mp [OF t1 [THEN conjunct2, THEN conjunct2, THEN conjunct2, THEN conjunct2, THEN conjunct2] p1]
  from r1 obtain a where a: "streams ?s ! 1 = Some a"
    "negotiated example_camera ?s 1 (mode (store ?s ! a))"
    "0 \<le> intrinsics_index (mode (store ?s ! a)) \<and>
       nat (intrinsics_index (mode (store ?s ! a))) < length (intrinsics (retrieve_calibration example_camera)) \<longrightarrow>
       get_stream_intrinsics ?s 1 =
         Returns (intrinsics (retrieve_calibration example_camera) ! nat (intrinsics_index (mode (store ?s ! a))))"
    by blast
  from a(1) st have a0: "a = 0" by simp
  from a(1) a0 have s1: "streams ?s ! 1 = Some 0" by simp
  from a(2) a0 have neg: "negotiated example_camera ?s 1 (mode (store ?s ! 0))" by simp
  from a(3) a0 k(1) rc have g1: "get_stream_intrinsics ?s 1 = Returns 10" by simp
  note t0 = get_stream_intrinsics_contract [where s = both_requested and st = 0 and n = 3
      and info = example_info and c = example_camera and i = 1 and m = depth_mode and sm = ?dm]
  have p0: "first_handle both_requested = None \<and> intrinsics (calib both_requested) = [] \<and>
    fst (configure_enabled_streams example_camera both_requested) = Inr () \<and>
    0 < length (streams both_requested) \<and> enabled (requests ?s ! 0) \<and>
    1 < length (subdevices both_requested) \<and>
    select_mode example_camera (camera_info both_requested) (requests ?s) 1 = Inr (Some depth_mode) \<and>
    ?dm \<in> set (mode_streams depth_mode) \<and> stream ?dm = 0"
    using fh cal ok ls ld en(2) sel(2) dm by simp
  note r0 = mp [OF t0 [THEN conjunct2, THEN conjunct2, THEN conjunct2, THEN conjunct2, THEN conjunct2] p0]
  from r0 obtain b where b: "streams ?s ! 0 = Some b"
    "0 \<le> intrinsics_index (mode (store ?s ! b)) \<and>
       nat (intrinsics_index (mode (store ?s ! b))) < length (intrinsics (retrieve_calibration example_camera)) \<longrightarrow>
       get_stream_intrinsics ?s 0 =
         Returns (intrinsics (retrieve_calibration example_camera) ! nat (intrinsics_index (mode (store ?s ! b))))"
    by blast
  from b(1) st have b1: "b = 1" by simp
  from b(1) b1 have s0: "streams ?s ! 0 = Some 1" by simp
  from b(2) b1 k(2) rc have g0: "get_stream_intrinsics ?s 0 = Returns 20" by simp
  note t2 = get_stream_intrinsics_contract [where s = both_requested and st = 2 and n = 3
      and info = example_info and c = example_camera]
  have p2: "2 < length (streams both_requested) \<and> \<not> enabled (requests ?s ! 2)"
    using ls en(3) by simp
  note g2 = mp [OF t2 [THEN conjunct2, THEN conjunct2, THEN conjunct2, THEN conjunct2, THEN conjunct1] p2]
  have "(1 :: nat) < 3" by simp
  note g3 = mp [OF t1 [THEN conjunct2, THEN conjunct1] this]
  from fh cal ok en(1,3) sel(1) s1 g1 neg s0 g0 g2 g3 show ?thesis
    by blast
qed

text \<open>
  C8 as stated fails for an enabled stream with a buffer in its slot. In the example,
  \<open>configure_enabled_streams\<close> throws on the depth request after it gave color its
  buffer, and no calibration is fetched. And when the calibration returned has a single
  intrinsics entry, the index 1 of the depth mode lies outside it although the call
  returned normally. Line 133 then indexes past the end of \<open>calib.intrinsics\<close>, which
  has no defined behaviour: no entry is returned.
\<close>

theorem intrinsics_of_enabled_stream_undefined:
  "fst (configure_enabled_streams example_camera unsupported_depth) =
     Inl (runtime_error ''no mode satisfies the requested streams'') \<and>
   enabled (requests (snd (configure_enabled_streams example_camera unsupported_depth)) ! 1) \<and>
   streams (snd (configure_enabled_streams example_camera unsupported_depth)) ! 1 = Some 0 \<and>
   intrinsics (calib (snd (configure_enabled_streams example_camera unsupported_depth))) = [] \<and>
   get_stream_intrinsics (snd (configure_enabled_streams example_camera unsupported_depth)) 1 =
     Undefined_behaviour \<and>
   fst (configure_enabled_streams (example_camera\<lparr>retrieve_calibration := \<lparr>intrinsics = [10]\<rparr>\<rparr>)
          both_requested) = Inr () \<and>
   enabled (requests (snd (configure_enabled_streams
      (example_camera\<lparr>retrieve_calibration := \<lparr>intrinsics = [10]\<rparr>\<rparr>) both_requested)) ! 0) \<and>
   streams (snd (configure_enabled_streams
      (example_camera\<lparr>retrieve_calibration := \<lparr>intrinsics = [10]\<rparr>\<rparr>) both_requested)) ! 0 = Some 1 \<and>
   intrinsics_index (mode (store (snd (configure_enabled_streams
      (example_camera\<lparr>retrieve_calibration := \<lparr>intrinsics = [10]\<rparr>\<rparr>) both_requested)) ! 1)) = 1 \<and>
   get_stream_intrinsics (snd (configure_enabled_streams
      (example_camera\<lparr>retrieve_calibration := \<lparr>intrinsics = [10]\<rparr>\<rparr>) both_requested)) 0 =
     Undefined_behaviour"
  by (simp add: example_defs get_stream_intrinsics_def)

section \<open>The polls of wait_all_streams\<close>

lemma poll_streams_keeps_modes:
  "poll_streams mx slots sch st = Some (tr, sch', st') \<Longrightarrow> map mode st' = map mode st"
proof (induction slots arbitrary: sch st tr)
  case Nil
  then show ?case by simp
next
  case (Cons p slots)
  obtain j slot where p: "p = (j, slot)" by (cases p)
  show ?case
  proof (cases slot)
    case None
    with Cons p show ?thesis by simp
  next
    case (Some a)
    show ?thesis
    proof (cases "fps (mode (st ! a)) = mx")
      case True
      with Cons.prems p Some obtain polls sch1 st1 tr1 where
        w: "wait_for_frame sch a st = Some (polls, sch1, st1)" and
        r: "poll_streams mx slots sch1 st1 = Some (tr1, sch', st')"
        by (auto split: option.splits)
      from wait_for_frame_result [OF w] Cons.IH [OF r] show ?thesis by simp
    next
      case False
      obtain polls sch1 st1 where c: "check_for_frame sch a st = (polls, sch1, st1)"
        by (cases "check_for_frame sch a st")
      with Cons.prems p Some False obtain tr1 where
        r: "poll_streams mx slots sch1 st1 = Some (tr1, sch', st')"
        by auto
      from check_for_frame_result [OF c] Cons.IH [OF r] show ?thesis by simp
    qed
  qed
qed

lemma own_buffers_store:
  assumes "own_buffers s" and "map mode st' = map mode (store s)"
  shows "own_buffers (s\<lparr>store := st'\<rparr>)"
proof -
  from assms(2) have len: "length st' = length (store s)" by (metis length_map)
  have "mode (st' ! a) = mode (store s ! a)" if "a < length (store s)" for a
    using assms(2) that len by (metis nth_map)
  with assms(1) len show ?thesis
    by (simp add: own_buffers_def buffers_hold_def)
qed

lemma own_buffers_same:
  "own_buffers s \<Longrightarrow> streams t = streams s \<Longrightarrow> store t = store s \<Longrightarrow> own_buffers t"
  by (simp add: own_buffers_def buffers_hold_def)

lemma negotiated_stream:
  assumes "negotiated c s st sm"
  shows "stream sm = st"
proof -
  from assms obtain i where
    i: "case select_mode c (camera_info s) (requests s) i of
          Inr (Some m) \<Rightarrow> sm \<in> set (mode_streams m) \<and> stream sm = st
        | _ \<Rightarrow> False"
    unfolding negotiated_def by blast
  show ?thesis
  proof (cases "select_mode c (camera_info s) (requests s) i")
    case (Inl e)
    with i show ?thesis by simp
  next
    case (Inr r)
    with i show ?thesis by (cases r) simp_all
  qed
qed

lemma configure_own_buffers: "own_buffers (snd (configure_enabled_streams c s))"
  using configure_buffers_negotiated [of c s] negotiated_stream
  unfolding own_buffers_def buffers_hold_def by blast

lemma start_capture_own_buffers:
  assumes "own_buffers s"
  shows "own_buffers (snd (start_capture c s))"
proof (cases "first_handle s = None")
  case True
  have k: "own_buffers t \<Longrightarrow> own_buffers ((set_streaming True t)\<lparr>is_capturing := True\<rparr>)"
    for t :: "'a rs_camera"
    by (rule own_buffers_same) (simp_all add: set_streaming_def)
  from True configure_own_buffers [of c s] show ?thesis
    by (cases "configure_enabled_streams c s") (auto simp: start_capture_def k split: sum.splits)
next
  case False
  have "own_buffers ((set_streaming True s)\<lparr>is_capturing := True\<rparr>)"
    by (rule own_buffers_same [OF assms]) (simp_all add: set_streaming_def)
  with False show ?thesis by (auto simp: start_capture_def)
qed

lemma run_op_own_buffers:
  assumes inv: "own_buffers s" and r: "run_op c x s = Some s'"
  shows "own_buffers s'"
proof (cases x)
  case (Enable_stream st w h f r')
  have "own_buffers (snd (enable_stream s st w h f r'))"
    by (rule own_buffers_same [OF inv]) (simp_all add: enable_stream_def)
  with r Enable_stream show ?thesis by simp
next
  case (Enable_stream_preset st p)
  have "own_buffers (snd (enable_stream_preset s st p))"
    by (rule own_buffers_same [OF inv]) (simp_all add: enable_stream_preset_def)
  with r Enable_stream_preset show ?thesis by simp
next
  case Configure_enabled_streams
  with r configure_own_buffers [of c s] show ?thesis by auto
next
  case Start_capture
  with r start_capture_own_buffers [OF inv, of c] show ?thesis by auto
next
  case Stop_capture
  have "own_buffers (stop_capture s)"
    by (rule own_buffers_same [OF inv]) (simp_all add: stop_capture_def set_streaming_def)
  with r Stop_capture show ?thesis by simp
next
  case (Wait_all_streams sch)
  with r obtain tr sch' where w: "wait_all_streams sch s = Some (tr, sch', s')" by auto
  show ?thesis
  proof (cases "is_capturing s")
    case False
    with w inv show ?thesis by (simp add: wait_all_streams_def)
  next
    case True
    with w obtain st' where
      ps: "poll_streams (max_fps (streams s) (store s)) (zip [0..<length (streams s)] (streams s)) sch (store s)
             = Some (tr, sch', st')" and s': "s' = s\<lparr>store := st'\<rparr>"
      by (auto simp: wait_all_streams_def)
    from own_buffers_store [OF inv poll_streams_keeps_modes [OF ps]] s' show ?thesis by simp
  qed
next
  case (Frame_arrives cs f)
  from own_buffers_store [OF inv callback_keeps_modes [of cs f "store s"]] r Frame_arrives
  show ?thesis by auto
qed

lemma run_ops_own_buffers:
  "own_buffers s \<Longrightarrow> run_ops c xs s = Some s' \<Longrightarrow> own_buffers s'"
proof (induction xs arbitrary: s)
  case Nil
  then show ?case by simp
next
  case (Cons x xs)
  from Cons.prems(2) obtain s1 where s1: "run_op c x s = Some s1" and rest: "run_ops c xs s1 = Some s'"
    by (auto split: option.splits)
  from Cons.IH [OF run_op_own_buffers [OF Cons.prems(1) s1] rest] show ?case .
qed

lemma new_own_buffers: "own_buffers (rs_camera_new n info)"
  by (simp add: own_buffers_def buffers_hold_def rs_camera_new_def)

lemma poll_in_turn_append:
  "poll_in_turn (xs @ ys) sch st =
     (case poll_in_turn xs sch st of
        (rs, sch1, st1) \<Rightarrow>
          (case poll_in_turn ys sch1 st1 of (rs', sch', st') \<Rightarrow> (rs @ rs', sch', st')))"
proof (induction xs arbitrary: sch st)
  case Nil
  show ?case by (simp split: prod.splits)
next
  case (Cons a xs)
  show ?case by (simp add: Cons.IH split: prod.splits)
qed

lemma check_for_frame_poll:
  "check_for_frame sch a st = (case poll sch a st of (r, sch1, st1) \<Rightarrow> ([r], sch1, st1))"
  by (simp add: check_for_frame_def poll_def Let_def split: prod.splits)

lemma poll_in_turn_single:
  "poll_in_turn [a] sch st = check_for_frame sch a st"
  by (simp add: check_for_frame_poll split: prod.splits)

lemma poll_no_frame:
  "\<not> updated ((case sch of [] \<Rightarrow> st | evs # _ \<Rightarrow> deliver evs st) ! a) \<Longrightarrow>
   poll sch a st = (False, tl sch, (case sch of [] \<Rightarrow> st | evs # _ \<Rightarrow> deliver evs st))"
  by (simp add: poll_def Let_def update_image_def)

lemma wait_for_frame_replay:
  "wait_for_frame sch a st = Some (polls, sch', st') \<Longrightarrow>
   poll_in_turn (replicate (length polls) a) sch st = (polls, sch', st')"
proof (induction sch arbitrary: st polls)
  case Nil
  then have u: "updated (st ! a)"
    by (auto simp: update_image_def split: if_splits)
  with Nil show ?case
    by (auto simp: update_image_def poll_def Let_def)
next
  case (Cons evs sch)
  let ?st1 = "deliver evs st"
  show ?case
  proof (cases "updated (?st1 ! a)")
    case True
    with Cons.prems show ?thesis
      by (auto simp: update_image_def poll_def Let_def)
  next
    case False
    with Cons.prems obtain polls0 where
      w: "wait_for_frame sch a ?st1 = Some (polls0, sch', st')" and p: "polls = False # polls0"
      by (auto simp: Let_def update_image_def)
    from False have "poll (evs # sch) a st = (False, sch, ?st1)"
      using poll_no_frame [where sch = "evs # sch" and st = st and a = a] by simp
    with Cons.IH [OF w] p show ?thesis by simp
  qed
qed

lemma poll_streams_replay:
  assumes "poll_streams mx slots sch st = Some (tr, sch', st')"
    and "\<forall>(j, slot) \<in> set slots. \<forall>a. slot = Some a \<longrightarrow> g j = a"
  shows "poll_in_turn (map (\<lambda>p. g (fst p)) tr) sch st = (map snd tr, sch', st') \<and>
         set (map fst tr) \<subseteq> fst ` set slots \<and>
         (sorted (map fst slots) \<longrightarrow> sorted (map fst tr))"
  using assms
proof (induction slots arbitrary: sch st tr)
  case Nil
  then show ?case by simp
next
  case (Cons p slots)
  obtain j slot where p: "p = (j, slot)" by (cases p)
  from Cons.prems(2) have g: "\<forall>(j, slot) \<in> set slots. \<forall>a. slot = Some a \<longrightarrow> g j = a"
    by simp
  show ?case
  proof (cases slot)
    case None
    with Cons.prems(1) p have ps: "poll_streams mx slots sch st = Some (tr, sch', st')"
      by simp
    from Cons.IH [OF ps g] p show ?thesis by auto
  next
    case (Some a)
    from Cons.prems(2) p Some have gj: "g j = a" by simp
    have "\<exists>polls sch1 st1 tr1.
        poll_streams mx slots sch1 st1 = Some (tr1, sch', st') \<and> tr = map (Pair j) polls @ tr1 \<and>
        poll_in_turn (replicate (length polls) a) sch st = (polls, sch1, st1)"
    proof (cases "fps (mode (st ! a)) = mx")
      case True
      with Cons.prems(1) p Some obtain polls sch1 st1 tr1 where
        w: "wait_for_frame sch a st = Some (polls, sch1, st1)" and
        r: "poll_streams mx slots sch1 st1 = Some (tr1, sch', st')" "tr = map (Pair j) polls @ tr1"
        by (auto split: option.splits)
      from wait_for_frame_replay [OF w] r show ?thesis by blast
    next
      case False
      obtain polls sch1 st1 where c: "check_for_frame sch a st = (polls, sch1, st1)"
        by (cases "check_for_frame sch a st")
      with Cons.prems(1) p Some False obtain tr1 where
        r: "poll_streams mx slots sch1 st1 = Some (tr1, sch', st')" "tr = map (Pair j) polls @ tr1"
        by auto
      from check_for_frame_result [OF c] obtain r0 where r0: "polls = [r0]" by blast
      with c have "poll_in_turn (replicate (length polls) a) sch st = (polls, sch1, st1)"
        by (simp add: poll_in_turn_single [symmetric] del: poll_in_turn.simps)
      with r show ?thesis by blast
    qed
    then obtain polls sch1 st1 tr1 where
      r: "poll_streams mx slots sch1 st1 = Some (tr1, sch', st')" and
      tr: "tr = map (Pair j) polls @ tr1" and
      rp: "poll_in_turn (replicate (length polls) a) sch st = (polls, sch1, st1)"
      by blast
    note ih = Cons.IH [OF r g]
    have m1: "map (\<lambda>p. g (fst p)) tr = replicate (length polls) a @ map (\<lambda>p. g (fst p)) tr1"
      by (simp add: tr gj map_replicate_const comp_def)
    have m2: "map snd tr = polls @ map snd tr1"
      by (simp add: tr comp_def)
    have m3: "map fst tr = replicate (length polls) j @ map fst tr1"
      by (simp add: tr map_replicate_const comp_def)
    have a: "poll_in_turn (map (\<lambda>p. g (fst p)) tr) sch st = (map snd tr, sch', st')"
      using rp ih by (simp add: m1 m2 poll_in_turn_append)
    have b: "set (map fst tr) \<subseteq> fst ` set (p # slots)"
      using ih p by (auto simp: m3)
    have c: "sorted (map fst tr)" if s: "sorted (map fst (p # slots))"
    proof -
      from s p have s1: "sorted (map fst slots)" and le: "\<forall>x \<in> fst ` set slots. j \<le> x"
        by auto
      from ih s1 have st1: "sorted (map fst tr1)" and sub: "set (map fst tr1) \<subseteq> fst ` set slots"
        by simp_all
      from sub le have "\<forall>y \<in> set (map fst tr1). j \<le> y" by blast
      with st1 show ?thesis
        unfolding m3 sorted_append by simp
    qed
    from a b c show ?thesis by blast
  qed
qed

lemma fold_flags:
  assumes f: "\<And>x st a. a < length st \<Longrightarrow> updated (F x st ! a) = (updated (st ! a) \<or> T x a)"
    and l: "\<And>x st. length (F x st) = length (st :: store)"
  shows "length (fold F xs st) = length st \<and>
         (a < length st \<longrightarrow> updated (fold F xs st ! a) = (updated (st ! a) \<or> (\<exists>x \<in> set xs. T x a)))"
proof (induction xs arbitrary: st)
  case Nil
  show ?case by simp
next
  case (Cons x xs)
  from Cons [of "F x st"] f [of a st x] l [of x st] show ?case by auto
qed

lemma update_flag:
  assumes "a < length st"
  shows "updated (st[k := b] ! a) = (if k = a then updated b else updated (st ! a))"
  using assms by (simp add: nth_list_update)

lemma callback_flags:
  "length (callback cs f st) = length st \<and>
   (a < length st \<longrightarrow> updated (callback cs f st ! a) = (updated (st ! a) \<or> a \<in> set (cs_streams cs)))"
proof -
  let ?F1 = "\<lambda>(k, bytes) st'. st'[k := unpack_into_back bytes (st' ! k)]"
  let ?F3 = "\<lambda>k st'. st'[k := swap_back_middle (st' ! k)]"
  have u: "length (fold ?F1 xs st0) = length st0 \<and>
           (a < length st0 \<longrightarrow> updated (fold ?F1 xs st0 ! a) = (updated (st0 ! a) \<or> (\<exists>x \<in> set xs. False)))"
    for xs and st0 :: store
    by (rule fold_flags) (auto simp: update_flag unpack_into_back_def split: if_splits)
  have n: "length (fold (\<lambda>k st'. st'[k := stamp_back d (st' ! k)]) xs st0) = length st0 \<and>
           (a < length st0 \<longrightarrow>
              updated (fold (\<lambda>k st'. st'[k := stamp_back d (st' ! k)]) xs st0 ! a) =
              (updated (st0 ! a) \<or> (\<exists>x \<in> set xs. False)))"
    for d xs and st0 :: store
    by (rule fold_flags) (auto simp: update_flag stamp_back_def split: if_splits)
  have w: "length (fold ?F3 xs st0) = length st0 \<and>
           (a < length st0 \<longrightarrow> updated (fold ?F3 xs st0 ! a) = (updated (st0 ! a) \<or> (\<exists>x \<in> set xs. x = a)))"
    for xs and st0 :: store
    by (rule fold_flags) (auto simp: update_flag swap_back_middle_def split: if_splits)
  show ?thesis
    by (cases "frame_number_decoder (cs_mode cs)") (auto simp: callback_def Let_def u n w)
qed

lemma deliver_flags:
  "length (deliver evs st) = length st \<and>
   (a < length st \<longrightarrow>
      updated (deliver evs st ! a) = (updated (st ! a) \<or> (\<exists>(cs, f) \<in> set evs. a \<in> set (cs_streams cs))))"
proof -
  have "length (fold (\<lambda>(cs, f) st'. callback cs f st') evs st) = length st \<and>
   (a < length st \<longrightarrow>
      updated (fold (\<lambda>(cs, f) st'. callback cs f st') evs st ! a) =
      (updated (st ! a) \<or> (\<exists>x \<in> set evs. (case x of (cs, f) \<Rightarrow> a \<in> set (cs_streams cs)))))"
    by (rule fold_flags) (auto simp: callback_flags)
  then show ?thesis by (simp add: deliver_def)
qed

lemma pending_Nil: "pending [] st a = updated (st ! a)"
  by (simp add: pending_def delivers_to_def)

lemma pending_Cons:
  "a < length st \<Longrightarrow> pending (evs # sch) st a = pending sch (deliver evs st) a"
  using deliver_flags [of evs st a] by (auto simp: pending_def delivers_to_def)

lemma wait_for_frame_returns_iff:
  "a < length st \<Longrightarrow> (wait_for_frame sch a st \<noteq> None) = pending sch st a"
proof (induction sch arbitrary: st)
  case Nil
  show ?case by (simp add: pending_Nil update_image_def)
next
  case (Cons evs sch)
  let ?st1 = "deliver evs st"
  from Cons.prems deliver_flags [of evs st a] have len: "a < length ?st1" by simp
  have l: "(wait_for_frame (evs # sch) a st \<noteq> None) =
           (updated (?st1 ! a) \<or> wait_for_frame sch a ?st1 \<noteq> None)"
    by (cases "wait_for_frame sch a ?st1") (auto simp: Let_def update_image_def split: prod.splits)
  have "pending sch ?st1 a = (updated (?st1 ! a) \<or> pending sch ?st1 a)"
    by (auto simp: pending_def)
  with l Cons.IH [OF len] pending_Cons [OF Cons.prems, of evs sch] show ?case by simp
qed

lemma poll_pending:
  assumes p: "poll sch a st = (r, sch1, st1)" and b: "b \<noteq> a" "b < length st"
  shows "length st1 = length st \<and> pending sch1 st1 b = pending sch st b"
proof (cases sch)
  case Nil
  with p b show ?thesis
    by (auto simp: poll_def Let_def pending_def split: prod.splits)
next
  case (Cons evs rest)
  let ?st0 = "deliver evs st"
  from deliver_flags [of evs st b] b have l0: "b < length ?st0" "length ?st0 = length st" by simp_all
  from p Cons obtain x where st1: "st1 = ?st0[a := x]" and sch1: "sch1 = rest"
    by (auto simp: poll_def Let_def split: prod.splits)
  from st1 l0 b have "updated (st1 ! b) = updated (?st0 ! b)" "length st1 = length st"
    by simp_all
  with sch1 Cons pending_Cons [OF b(2), of evs rest] show ?thesis
    by (simp add: pending_def)
qed

lemma poll_in_turn_pending:
  assumes "poll_in_turn as sch st = (rs, sch1, st1)" and "b \<notin> set as" and "b < length st"
  shows "length st1 = length st \<and> pending sch1 st1 b = pending sch st b"
  using assms
proof (induction as arbitrary: sch st rs)
  case Nil
  then show ?case by simp
next
  case (Cons a as)
  obtain r schm stm where p: "poll sch a st = (r, schm, stm)" by (cases "poll sch a st")
  obtain rs' where q: "poll_in_turn as schm stm = (rs', sch1, st1)"
    using Cons.prems(1) p by (auto split: prod.splits)
  from Cons.prems(2) have ne: "b \<noteq> a" "b \<notin> set as" by auto
  from poll_pending [OF p ne(1) Cons.prems(3)]
  have m: "length stm = length st" "pending schm stm b = pending sch st b" by simp_all
  from Cons.prems(3) m have "b < length stm" by simp
  from Cons.IH [OF q ne(2) this] m show ?case by simp
qed

lemma poll_streams_returns_iff:
  assumes "distinct (map fst slots)"
    and "\<forall>(j, slot) \<in> set slots. \<forall>a. slot = Some a \<longrightarrow> a < length st \<and> stream (mode (st ! a)) = j"
  shows "(poll_streams mx slots sch st \<noteq> None) =
         (\<forall>(j, slot) \<in> set slots. \<forall>a. slot = Some a \<and> fps (mode (st ! a)) = mx \<longrightarrow> pending sch st a)"
  using assms
proof (induction slots arbitrary: sch st)
  case Nil
  show ?case by simp
next
  case (Cons p slots)
  obtain j slot where p: "p = (j, slot)" by (cases p)
  from Cons.prems(1) p have d: "distinct (map fst slots)" and nj: "j \<notin> fst ` set slots"
    by simp_all
  from Cons.prems(2) have w: "\<forall>(j, slot) \<in> set slots. \<forall>a. slot = Some a \<longrightarrow>
      a < length st \<and> stream (mode (st ! a)) = j"
    by simp
  show ?case
  proof (cases slot)
    case None
    with Cons.IH [OF d w, of sch] p show ?thesis by simp
  next
    case (Some a)
    from Cons.prems(2) p Some have a: "a < length st" "stream (mode (st ! a)) = j" by simp_all
    have other: "b \<noteq> a" if "(i, Some b) \<in> set slots" for i b
    proof
      assume "b = a"
      with w that a have "i = j" by auto
      with that nj show False by force
    qed
    have conv: "(poll_streams mx slots sch1 st1 \<noteq> None) =
        (\<forall>(j, slot) \<in> set slots. \<forall>a. slot = Some a \<and> fps (mode (st ! a)) = mx \<longrightarrow> pending sch st a)"
      if rp: "poll_in_turn (replicate (length polls) a) sch st = (polls, sch1, st1)"
        and mm: "map mode st1 = map mode st" for polls sch1 st1
    proof -
      from mm have len: "length st1 = length st" by (metis length_map)
      have same: "mode (st1 ! b) = mode (st ! b)" if "b < length st" for b
        using mm that len by (metis nth_map)
      have w1: "\<forall>(j, slot) \<in> set slots. \<forall>a. slot = Some a \<longrightarrow>
          a < length st1 \<and> stream (mode (st1 ! a)) = j"
        using w same len by auto
      have pe: "pending sch1 st1 b = pending sch st b" if "(i, Some b) \<in> set slots" for i b
      proof -
        from other [OF that] have "b \<notin> set (replicate (length polls) a)" by auto
        moreover from w that have "b < length st" by auto
        ultimately show ?thesis using poll_in_turn_pending [OF rp] by blast
      qed
      have "(\<forall>(j, slot) \<in> set slots. \<forall>a. slot = Some a \<and> fps (mode (st1 ! a)) = mx \<longrightarrow> pending sch1 st1 a) =
            (\<forall>(j, slot) \<in> set slots. \<forall>a. slot = Some a \<and> fps (mode (st ! a)) = mx \<longrightarrow> pending sch st a)"
      proof (intro ball_cong refl)
        fix x assume x: "x \<in> set slots"
        obtain i sl where xs: "x = (i, sl)" by (cases x)
        show "(case x of (j, slot) \<Rightarrow> \<forall>a. slot = Some a \<and> fps (mode (st1 ! a)) = mx \<longrightarrow> pending sch1 st1 a) =
              (case x of (j, slot) \<Rightarrow> \<forall>a. slot = Some a \<and> fps (mode (st ! a)) = mx \<longrightarrow> pending sch st a)"
        proof (cases sl)
          case None
          with xs show ?thesis by simp
        next
          case (Some b)
          with x xs have in_slots: "(i, Some b) \<in> set slots" by simp
          with w have "b < length st" by auto
          from same [OF this] pe [OF in_slots] xs Some show ?thesis by simp
        qed
      qed
      with Cons.IH [OF d w1, of sch1] show ?thesis by simp
    qed
    show ?thesis
    proof (cases "fps (mode (st ! a)) = mx")
      case True
      show ?thesis
      proof (cases "wait_for_frame sch a st")
        case None
        with wait_for_frame_returns_iff [OF a(1), of sch] have "\<not> pending sch st a" by simp
        with None True p Some show ?thesis by auto
      next
        case (Some res)
        obtain polls sch1 st1 where res: "res = (polls, sch1, st1)" by (cases res)
        from Some res have wf: "wait_for_frame sch a st = Some (polls, sch1, st1)" by simp
        from wait_for_frame_returns_iff [OF a(1), of sch] wf have pa: "pending sch st a" by simp
        from wait_for_frame_result [OF wf] have mm: "map mode st1 = map mode st" by simp
        have "(poll_streams mx (p # slots) sch st \<noteq> None) = (poll_streams mx slots sch1 st1 \<noteq> None)"
          using wf True p \<open>slot = Some a\<close> by (cases "poll_streams mx slots sch1 st1") auto
        with conv [OF wait_for_frame_replay [OF wf] mm] pa p \<open>slot = Some a\<close> show ?thesis by auto
      qed
    next
      case False
      obtain polls sch1 st1 where c: "check_for_frame sch a st = (polls, sch1, st1)"
        by (cases "check_for_frame sch a st")
      from check_for_frame_result [OF c] obtain r0 where
        mm: "map mode st1 = map mode st" and r0: "polls = [r0]" by blast
      from c r0 have rp: "poll_in_turn (replicate (length polls) a) sch st = (polls, sch1, st1)"
        by (simp add: poll_in_turn_single [symmetric] del: poll_in_turn.simps)
      have "(poll_streams mx (p # slots) sch st \<noteq> None) = (poll_streams mx slots sch1 st1 \<noteq> None)"
        using c False p Some by (cases "poll_streams mx slots sch1 st1") auto
      with conv [OF rp mm] False p Some show ?thesis by auto
    qed
  qed
qed

lemma zip_upt_ball:
  "(\<forall>(j, x) \<in> set (zip [0..<length xs] xs). P j x) = (\<forall>j < length xs. P j (xs ! j))"
proof
  assume a: "\<forall>(j, x) \<in> set (zip [0..<length xs] xs). P j x"
  show "\<forall>j < length xs. P j (xs ! j)"
  proof (intro allI impI)
    fix j assume j: "j < length xs"
    then have "zip [0..<length xs] xs ! j = (j, xs ! j)" by simp
    moreover from j have "zip [0..<length xs] xs ! j \<in> set (zip [0..<length xs] xs)"
      by (intro nth_mem) simp
    ultimately have "(j, xs ! j) \<in> set (zip [0..<length xs] xs)" by simp
    with a show "P j (xs ! j)" by blast
  qed
next
  assume a: "\<forall>j < length xs. P j (xs ! j)"
  show "\<forall>(j, x) \<in> set (zip [0..<length xs] xs). P j x"
  proof (intro ballI)
    fix p assume "p \<in> set (zip [0..<length xs] xs)"
    then obtain i where "i < length xs" "p = (i, xs ! i)"
      by (auto simp: set_zip)
    with a show "case p of (j, x) \<Rightarrow> P j x" by simp
  qed
qed

lemma two_rate_store:
  "length (store two_rate_session) = 2 \<and>
   streams two_rate_session ! 0 = Some 1 \<and>
   fps (mode (store two_rate_session ! 1)) = 60 \<and>
   \<not> updated (store two_rate_session ! 1)"
  by (simp add: two_rate_session_def depth_mode_60_def example_defs)

text \<open>
  C5. \<open>wait_all_streams\<close> on a session that is not capturing returns at once, polls
  nothing and changes nothing. The maximum it computes is the largest fps among the modes
  of the buffers in the stream slots and 0, the initial value of \<open>maxFps\<close>. Now take
  a capturing session reached from a new one by calls and frame arrivals, and a schedule
  of callback runs. The call returns exactly when every buffer in a slot whose mode has
  the maximal fps has its updated flag set or is delivered to by a callback run of the
  schedule; otherwise one of the busy-waits never ends. When it returns: only the
  store of the session changed; every entry of the list of polls is a call of
  \<open>update_image\<close>, in that polling the buffers of the listed streams in the listed
  order, each after the callback runs scheduled before it, returns the listed flags and
  leaves the schedule and the store that \<open>wait_all_streams\<close> leaves; the streams are
  polled in ascending order; no buffer changed its mode; a stream with no buffer is never
  polled; a stream whose fps is the maximum is polled until \<open>update_image\<close> returns
  true (some number of false results, then one true); every other buffered stream is
  polled exactly once. The busy-wait on one buffer returns exactly when some poll finds
  the updated flag set, that is, after the callbacks of some initial part of the schedule
  have run. A slower stream need not be updated: in the two-rate session, with one depth
  frame arriving, the single poll of color returns false and its front slot is
  unchanged.
\<close>

theorem wait_all_streams_polls:
  "(\<not> is_capturing s \<longrightarrow> wait_all_streams sch s = Some ([], sch, s)) \<and>
   max_fps (streams s) (store s) =
     Max (insert 0 ((\<lambda>a. fps (mode (store s ! a))) ` Option.these (set (streams s)))) \<and>
   (run_ops c ops (rs_camera_new n info) = Some s \<and> is_capturing s \<longrightarrow>
      (wait_all_streams sch s \<noteq> None) =
        (\<forall>j < length (streams s). \<forall>a.
           streams s ! j = Some a \<and> fps (mode (store s ! a)) = max_fps (streams s) (store s) \<longrightarrow>
           updated (store s ! a) \<or> delivers_to sch a)) \<and>
   (run_ops c ops (rs_camera_new n info) = Some s \<and> is_capturing s \<and>
    wait_all_streams sch s = Some (tr, sch', s') \<longrightarrow>
      s' = s\<lparr>store := store s'\<rparr> \<and>
      poll_in_turn (map (\<lambda>p. the (streams s ! fst p)) tr) sch (store s) = (map snd tr, sch', store s') \<and>
      sorted (map fst tr) \<and>
      map mode (store s') = map mode (store s) \<and>
      (\<forall>j. length (streams s) \<le> j \<longrightarrow> polls_of j tr = []) \<and>
      (\<forall>j < length (streams s).
         case streams s ! j of
           None \<Rightarrow> polls_of j tr = []
         | Some a \<Rightarrow>
             if fps (mode (store s ! a)) = max_fps (streams s) (store s)
             then \<exists>k. polls_of j tr = replicate k False @ [True]
             else \<exists>r. polls_of j tr = [r])) \<and>
   (wait_for_frame w b st \<noteq> None) =
     (\<exists>k \<le> length w. updated (fold deliver (take (Suc k) w) st ! b)) \<and>
   (\<exists>sch tr sch' s'.
      is_capturing two_rate_session \<and>
      wait_all_streams sch two_rate_session = Some (tr, sch', s') \<and>
      streams two_rate_session ! 1 = Some 0 \<and>
      fps (mode (store two_rate_session ! 0)) <
        max_fps (streams two_rate_session) (store two_rate_session) \<and>
      polls_of 1 tr = [False] \<and>
      front (store s' ! 0) = front (store two_rate_session ! 0))"
proof -
  let ?n = "length (streams s)"
  let ?slots = "zip [0..<?n] (streams s)"
  let ?mx = "max_fps (streams s) (store s)"
  have own: "\<forall>j < ?n. \<forall>a. streams s ! j = Some a \<longrightarrow>
      a < length (store s) \<and> stream (mode (store s ! a)) = j"
    if reach: "run_ops c ops (rs_camera_new n info) = Some s"
    using run_ops_own_buffers [OF new_own_buffers reach]
    by (simp add: own_buffers_def buffers_hold_def)
  have w: "\<forall>(j, slot) \<in> set ?slots. \<forall>a. slot = Some a \<longrightarrow>
      a < length (store s) \<and> stream (mode (store s ! a)) = j"
    if reach: "run_ops c ops (rs_camera_new n info) = Some s"
    using own [OF reach] by (simp add: zip_upt_ball)
  have v: "\<forall>(j, slot) \<in> set ?slots. \<forall>a. slot = Some a \<longrightarrow> a < length (store s)"
    if reach: "run_ops c ops (rs_camera_new n info) = Some s"
    using own [OF reach] by (simp add: zip_upt_ball)
  have g: "\<forall>(j, slot) \<in> set ?slots. \<forall>a. slot = Some a \<longrightarrow> the (streams s ! j) = a"
    by (simp add: zip_upt_ball)
  have fsts: "map fst ?slots = [0..<?n]"
    by (simp add: map_fst_zip)
  then have d: "distinct (map fst ?slots)" and so: "sorted (map fst ?slots)"
    by simp_all
  have c1: "\<not> is_capturing s \<longrightarrow> wait_all_streams sch s = Some ([], sch, s)"
    by (simp add: wait_all_streams_def)
  have c2: "?mx = Max (insert 0 ((\<lambda>a. fps (mode (store s ! a))) ` Option.these (set (streams s))))"
    by (rule max_fps_Max)
  have c3: "run_ops c ops (rs_camera_new n info) = Some s \<and> is_capturing s \<longrightarrow>
      (wait_all_streams sch s \<noteq> None) =
        (\<forall>j < ?n. \<forall>a. streams s ! j = Some a \<and> fps (mode (store s ! a)) = ?mx \<longrightarrow>
           updated (store s ! a) \<or> delivers_to sch a)"
  proof
    assume "run_ops c ops (rs_camera_new n info) = Some s \<and> is_capturing s"
    then have reach: "run_ops c ops (rs_camera_new n info) = Some s" and cap: "is_capturing s"
      by simp_all
    from cap have "(wait_all_streams sch s \<noteq> None) = (poll_streams ?mx ?slots sch (store s) \<noteq> None)"
      by (cases "poll_streams ?mx ?slots sch (store s)") (simp_all add: wait_all_streams_def)
    also have "\<dots> = (\<forall>(j, slot) \<in> set ?slots. \<forall>a.
        slot = Some a \<and> fps (mode (store s ! a)) = ?mx \<longrightarrow> pending sch (store s) a)"
      by (rule poll_streams_returns_iff [OF d w [OF reach]])
    also have "\<dots> = (\<forall>j < ?n. \<forall>a. streams s ! j = Some a \<and> fps (mode (store s ! a)) = ?mx \<longrightarrow>
           updated (store s ! a) \<or> delivers_to sch a)"
      by (simp add: zip_upt_ball pending_def)
    finally show "(wait_all_streams sch s \<noteq> None) =
        (\<forall>j < ?n. \<forall>a. streams s ! j = Some a \<and> fps (mode (store s ! a)) = ?mx \<longrightarrow>
           updated (store s ! a) \<or> delivers_to sch a)" .
  qed
  have c4: "run_ops c ops (rs_camera_new n info) = Some s \<and> is_capturing s \<and>
      wait_all_streams sch s = Some (tr, sch', s') \<longrightarrow>
      s' = s\<lparr>store := store s'\<rparr> \<and>
      poll_in_turn (map (\<lambda>p. the (streams s ! fst p)) tr) sch (store s) = (map snd tr, sch', store s') \<and>
      sorted (map fst tr) \<and>
      map mode (store s') = map mode (store s) \<and>
      (\<forall>j. ?n \<le> j \<longrightarrow> polls_of j tr = []) \<and>
      (\<forall>j < ?n.
         case streams s ! j of
           None \<Rightarrow> polls_of j tr = []
         | Some a \<Rightarrow>
             if fps (mode (store s ! a)) = ?mx
             then \<exists>k. polls_of j tr = replicate k False @ [True]
             else \<exists>r. polls_of j tr = [r])"
  proof
    assume "run_ops c ops (rs_camera_new n info) = Some s \<and> is_capturing s \<and>
      wait_all_streams sch s = Some (tr, sch', s')"
    then have reach: "run_ops c ops (rs_camera_new n info) = Some s"
      and a: "is_capturing s \<and> wait_all_streams sch s = Some (tr, sch', s')"
      by simp_all
    from a obtain st' where
      ps: "poll_streams ?mx ?slots sch (store s) = Some (tr, sch', st')" and s': "s' = s\<lparr>store := st'\<rparr>"
      by (auto simp: wait_all_streams_def)
    from s' have st': "store s' = st'" by simp
    note t = poll_streams_trace [OF ps d v [OF reach]]
    note r = poll_streams_replay [OF ps g]
    have img: "fst ` set ?slots = {0..<?n}"
      using fsts by (metis set_map set_upt)
    have out: "\<forall>j. ?n \<le> j \<longrightarrow> polls_of j tr = []"
      using t img by auto
    have inn: "\<forall>j < ?n. case streams s ! j of
           None \<Rightarrow> polls_of j tr = []
         | Some a \<Rightarrow>
             if fps (mode (store s ! a)) = ?mx
             then \<exists>k. polls_of j tr = replicate k False @ [True]
             else \<exists>r. polls_of j tr = [r]"
      using t by (simp add: zip_upt_ball)
    from r so have "poll_in_turn (map (\<lambda>p. the (streams s ! fst p)) tr) sch (store s) = (map snd tr, sch', st')"
      "sorted (map fst tr)"
      by simp_all
    with t s' st' out inn
    show "s' = s\<lparr>store := store s'\<rparr> \<and>
      poll_in_turn (map (\<lambda>p. the (streams s ! fst p)) tr) sch (store s) = (map snd tr, sch', store s') \<and>
      sorted (map fst tr) \<and>
      map mode (store s') = map mode (store s) \<and>
      (\<forall>j. ?n \<le> j \<longrightarrow> polls_of j tr = []) \<and>
      (\<forall>j < ?n.
         case streams s ! j of
           None \<Rightarrow> polls_of j tr = []
         | Some a \<Rightarrow>
             if fps (mode (store s ! a)) = ?mx
             then \<exists>k. polls_of j tr = replicate k False @ [True]
             else \<exists>r. polls_of j tr = [r])"
      by simp
  qed
  have c5: "(wait_for_frame w b st \<noteq> None) =
     (\<exists>k \<le> length w. updated (fold deliver (take (Suc k) w) st ! b))"
    by (rule wait_for_frame_returns)
  have c6: "\<exists>sch tr sch' s'.
      is_capturing two_rate_session \<and>
      wait_all_streams sch two_rate_session = Some (tr, sch', s') \<and>
      streams two_rate_session ! 1 = Some 0 \<and>
      fps (mode (store two_rate_session ! 0)) <
        max_fps (streams two_rate_session) (store two_rate_session) \<and>
      polls_of 1 tr = [False] \<and>
      front (store s' ! 0) = front (store two_rate_session ! 0)"
  proof -
    from two_rate_wait obtain s' where
      w: "wait_all_streams depth_frame_only two_rate_session = Some ([(0, True), (1, False)], [], s')"
      and f: "front (store s' ! 0) = front (store two_rate_session ! 0)"
      by blast
    have p: "polls_of 1 [(0, True), (1, False)] = [False]"
      by (simp add: polls_of_def)
    from two_rate_session_eval two_rate_max_fps w f p show ?thesis
      by (intro exI [of _ depth_frame_only] exI [of _ "[(0, True), (1, False)]"] exI [of _ "[]"]
            exI [of _ s']) simp
  qed
  from c1 c2 c3 c4 c5 c6 show ?thesis by blast
qed

theorem wait_all_streams_polls_witness:
  "run_ops example_camera [Enable_stream 1 640 480 1 30, Enable_stream 0 640 480 2 60, Start_capture]
     (rs_camera_new 3 (example_info\<lparr>subdevice_modes := [color_mode, depth_mode_60]\<rparr>)) =
     Some two_rate_session \<and>
   is_capturing two_rate_session \<and>
   streams two_rate_session = [Some 1, Some 0, None] \<and>
   max_fps (streams two_rate_session) (store two_rate_session) = 60 \<and>
   fps (mode (store two_rate_session ! 1)) = 60 \<and>
   \<not> updated (store two_rate_session ! 1) \<and>
   wait_all_streams [] two_rate_session = None \<and>
   fst (the (wait_all_streams depth_frame_only two_rate_session)) = [(0, True), (1, False)] \<and>
   poll_in_turn [1, 0] depth_frame_only (store two_rate_session) =
     ([True, False], [],
      store (snd (snd (the (wait_all_streams depth_frame_only two_rate_session))))) \<and>
   map mode (store (snd (snd (the (wait_all_streams depth_frame_only two_rate_session))))) =
     map mode (store two_rate_session) \<and>
   \<not> is_capturing fresh_session \<and>
   wait_all_streams depth_frame_only fresh_session = Some ([], depth_frame_only, fresh_session)"
proof -
  have run: "run_ops example_camera
     [Enable_stream 1 640 480 1 30, Enable_stream 0 640 480 2 60, Start_capture]
     (rs_camera_new 3 (example_info\<lparr>subdevice_modes := [color_mode, depth_mode_60]\<rparr>)) =
     Some two_rate_session"
    by (simp add: two_rate_session_def)
  have nc: "\<not> is_capturing fresh_session"
    by (simp add: fresh_session_def rs_camera_new_def)
  from two_rate_session_eval have cap: "is_capturing two_rate_session"
    and st: "streams two_rate_session = [Some 1, Some 0, None]"
    by simp_all
  from two_rate_max_fps have mx: "max_fps (streams two_rate_session) (store two_rate_session) = 60"
    by simp
  from two_rate_store have f1: "fps (mode (store two_rate_session ! 1)) = 60"
    and u1: "\<not> updated (store two_rate_session ! 1)"
    by simp_all
  from two_rate_wait obtain s' where
    w: "wait_all_streams depth_frame_only two_rate_session = Some ([(0, True), (1, False)], [], s')"
    by blast
  have nd: "\<not> delivers_to [] 1"
    by (simp add: delivers_to_def)
  from f1 mx have eq: "fps (mode (store two_rate_session ! 1)) =
      max_fps (streams two_rate_session) (store two_rate_session)"
    by simp
  from st have s0: "0 < length (streams two_rate_session)" "streams two_rate_session ! 0 = Some 1"
    by simp_all
  note t0 = wait_all_streams_polls [where c = example_camera
      and ops = "[Enable_stream 1 640 480 1 30, Enable_stream 0 640 480 2 60, Start_capture]"
      and n = 3 and info = "example_info\<lparr>subdevice_modes := [color_mode, depth_mode_60]\<rparr>"
      and s = two_rate_session and sch = "[]"]
  note iff = mp [OF t0 [THEN conjunct2, THEN conjunct2, THEN conjunct1] conjI [OF run cap]]
  have none: "wait_all_streams [] two_rate_session = None"
  proof (rule ccontr)
    assume "wait_all_streams [] two_rate_session \<noteq> None"
    from iff [THEN iffD1, OF this, rule_format, OF s0(1) conjI [OF s0(2) eq]]
    have "updated (store two_rate_session ! 1) \<or> delivers_to [] 1" .
    with u1 nd show False by blast
  qed
  note t1 = wait_all_streams_polls [where c = example_camera
      and ops = "[Enable_stream 1 640 480 1 30, Enable_stream 0 640 480 2 60, Start_capture]"
      and n = 3 and info = "example_info\<lparr>subdevice_modes := [color_mode, depth_mode_60]\<rparr>"
      and s = two_rate_session and sch = depth_frame_only
      and tr = "[(0, True), (1, False)]" and sch' = "[]" and s' = s']
  note r = mp [OF t1 [THEN conjunct2, THEN conjunct2, THEN conjunct2, THEN conjunct1]
      conjI [OF run conjI [OF cap w]]]
  have m1: "map (\<lambda>p. the (streams two_rate_session ! fst p)) [(0, True), (1, False)] = [1, 0]"
    by (simp add: st)
  have m2: "map snd [(0 :: nat, True), (1, False)] = [True, False]"
    by simp
  note replay = r [THEN conjunct2, THEN conjunct1, unfolded m1 m2]
  note modes = r [THEN conjunct2, THEN conjunct2, THEN conjunct2, THEN conjunct1]
  note t2 = wait_all_streams_polls [where s = fresh_session and sch = depth_frame_only]
  note idle = mp [OF t2 [THEN conjunct1] nc]
  from w have e: "fst (the (wait_all_streams depth_frame_only two_rate_session)) = [(0, True), (1, False)]"
    and e2: "snd (snd (the (wait_all_streams depth_frame_only two_rate_session))) = s'"
    by simp_all
  from replay modes have k: "poll_in_turn [1, 0] depth_frame_only (store two_rate_session) =
     ([True, False], [],
      store (snd (snd (the (wait_all_streams depth_frame_only two_rate_session)))))"
    "map mode (store (snd (snd (the (wait_all_streams depth_frame_only two_rate_session))))) =
     map mode (store two_rate_session)"
    unfolding e2 by simp_all
  from run cap st mx f1 u1 none e k nc idle show ?thesis
    by blast
qed

end
